theory Spec2Isabelle
  imports Complex_Main "HOL-Library.Log_Nat"
begin

section \<open>JavaScript numbers\<close>

text \<open>
  Every number of \<^verbatim>\<open>script.js\<close> is an IEEE 754 binary64 double. A finite double is
  kept as the rational it denotes; \<open>round64\<close> rounds an exact result to the nearest
  double, ties to the even significand, with gradual underflow below \<open>2 powi - 1022\<close>
  and overflow to an infinity from \<open>2 powi 1024\<close> on. Zero is not signed: no operand of
  the program is negative, so \<open>-0\<close> never arises.
\<close>

datatype number = Fin rat | PosInf | NegInf | NaN

definition ilog2 :: "rat \<Rightarrow> int" where
  \<comment> \<open>the binary exponent of a positive rational: \<open>2 powi e \<le> x < 2 powi (e + 1)\<close>\<close>
  "ilog2 x = (let (p, q) = quotient_of x; d = bitlen p - bitlen q
              in if 2 powi d \<le> x then d else d - 1)"

definition rne :: "rat \<Rightarrow> int" where
  \<comment> \<open>round to the nearest integer, a tie to the even one\<close>
  "rne m = (let f = \<lfloor>m\<rfloor>; d = m - of_int f
            in if d < 1 / 2 then f else if 1 / 2 < d then f + 1
               else if even f then f else f + 1)"

definition expo :: "rat \<Rightarrow> int" where
  \<comment> \<open>the exponent a positive rational is rounded at: subnormal below \<open>2 powi - 1022\<close>\<close>
  "expo a = max (ilog2 a) (- 1022)"

definition nearest :: "rat \<Rightarrow> rat" where
  \<comment> \<open>a positive rational rounded to 53 significant bits, exponent unbounded above\<close>
  "nearest a = (let ulp = 2 powi (expo a - 52) in of_int (rne (a / ulp)) * ulp)"

definition round64 :: "rat \<Rightarrow> number" where
  "round64 x = (if x = 0 then Fin 0
                else if 2 powi 1024 \<le> nearest \<bar>x\<bar> then (if 0 < x then PosInf else NegInf)
                else Fin (if 0 < x then nearest x else - nearest (- x)))"

definition num :: "nat \<Rightarrow> number" where
  \<comment> \<open>counts, byte sizes and pixel dimensions: integers below \<open>2 ^ 53\<close>, which doubles hold exactly\<close>
  "num n = Fin (of_nat n)"

fun js_div :: "number \<Rightarrow> number \<Rightarrow> number" where
  "js_div (Fin x) (Fin y) =
     (if y = 0 then (if x = 0 then NaN else if 0 < x then PosInf else NegInf)
      else round64 (x / y))"
| "js_div (Fin x) PosInf = Fin 0"
| "js_div (Fin x) NegInf = Fin 0"
| "js_div PosInf (Fin y) = (if 0 \<le> y then PosInf else NegInf)"
| "js_div NegInf (Fin y) = (if 0 \<le> y then NegInf else PosInf)"
| "js_div _ _ = NaN"

fun js_mul :: "number \<Rightarrow> number \<Rightarrow> number" where
  "js_mul (Fin x) (Fin y) = round64 (x * y)"
| "js_mul (Fin x) PosInf = (if x = 0 then NaN else if 0 < x then PosInf else NegInf)"
| "js_mul (Fin x) NegInf = (if x = 0 then NaN else if 0 < x then NegInf else PosInf)"
| "js_mul PosInf (Fin y) = (if y = 0 then NaN else if 0 < y then PosInf else NegInf)"
| "js_mul NegInf (Fin y) = (if y = 0 then NaN else if 0 < y then NegInf else PosInf)"
| "js_mul PosInf PosInf = PosInf"
| "js_mul NegInf NegInf = PosInf"
| "js_mul PosInf NegInf = NegInf"
| "js_mul NegInf PosInf = NegInf"
| "js_mul _ _ = NaN"

fun js_sub :: "number \<Rightarrow> number \<Rightarrow> number" where
  "js_sub (Fin x) (Fin y) = round64 (x - y)"
| "js_sub (Fin x) PosInf = NegInf"
| "js_sub (Fin x) NegInf = PosInf"
| "js_sub PosInf (Fin y) = PosInf"
| "js_sub NegInf (Fin y) = NegInf"
| "js_sub PosInf NegInf = PosInf"
| "js_sub NegInf PosInf = NegInf"
| "js_sub _ _ = NaN"

fun Math_min :: "number \<Rightarrow> number \<Rightarrow> number" where
  "Math_min NaN _ = NaN"
| "Math_min _ NaN = NaN"
| "Math_min NegInf _ = NegInf"
| "Math_min _ NegInf = NegInf"
| "Math_min PosInf y = y"
| "Math_min x PosInf = x"
| "Math_min (Fin x) (Fin y) = Fin (min x y)"

fun js_le :: "number \<Rightarrow> number \<Rightarrow> bool" where
  \<comment> \<open>\<^verbatim>\<open>x <= y\<close>\<close>
  "js_le NaN _ = False"
| "js_le _ NaN = False"
| "js_le NegInf _ = True"
| "js_le _ PosInf = True"
| "js_le (Fin x) (Fin y) = (x \<le> y)"
| "js_le _ _ = False"

fun to_unsigned_long :: "number \<Rightarrow> nat" where
  \<comment> \<open>the conversion of a number stored into an \<^verbatim>\<open>unsigned long\<close> attribute such as
      \<^verbatim>\<open>canvas.width\<close>: truncate towards zero, then reduce modulo \<open>2 ^ 32\<close>\<close>
  "to_unsigned_long (Fin x) = nat ((if 0 \<le> x then \<lfloor>x\<rfloor> else - \<lfloor>- x\<rfloor>) mod 2 ^ 32)"
| "to_unsigned_long _ = 0"

section \<open>Files, images and the browser\<close>

text \<open>
  A \<^verbatim>\<open>Blob\<close> has a media type and bytes, and its \<^verbatim>\<open>size\<close> is the number of bytes; a
  \<^verbatim>\<open>File\<close> is a blob with a name.
\<close>

record Blob =
  type :: string
  bytes :: "nat list"

record File = Blob +
  name :: string

definition size_of :: "'a Blob_scheme \<Rightarrow> nat" where
  "size_of b = length (bytes b)"

definition as_blob :: "File \<Rightarrow> Blob" where
  \<comment> \<open>a file used where a blob is expected\<close>
  "as_blob f = \<lparr>type = type f, bytes = bytes f\<rparr>"

text \<open>
  A data URL is kept parsed. \<open>Base64 t raw\<close> is \<^verbatim>\<open>data:t;base64,...\<close> whose payload decodes
  to the bytes \<open>raw\<close>: splitting it at \<^verbatim>\<open>;base64,\<close> and then at \<^verbatim>\<open>:\<close> gives \<open>t\<close>, and
  \<^verbatim>\<open>atob\<close> of its second part gives \<open>raw\<close>. \<open>NoData\<close> is \<^verbatim>\<open>data:,\<close>, the answer of
  \<^verbatim>\<open>toDataURL\<close> for a canvas without pixels; it has no \<^verbatim>\<open>;base64,\<close> part.
\<close>

datatype data_url = Base64 string "nat list" | NoData

datatype draw = DrawImage data_url nat nat nat nat

record canvas =
  width :: nat
  height :: nat
  content :: "draw list"

text \<open>
  The markup of a result card is the template of \<open>createResultCard\<close> with its slots
  filled: the preview source, the name shown, the two sizes handed to \<^verbatim>\<open>formatBytes\<close>, the
  width of the size bar in percent, the class and the text of the reduction badge, and the
  two data attributes of the download button. The object URL made for a blob is kept as
  that blob. The download button found in the parsed markup has the two attributes as the
  parser read them.
\<close>

record markup =
  finalDataUrl :: data_url
  shownName :: string
  shownOriginal :: nat
  shownFinal :: nat
  barWidth :: number
  reductionClass :: string
  reductionText :: string
  downloadUrl :: Blob
  fileName :: string

datatype url = ObjectURL Blob | OtherURL string

record button =
  data_url :: url
  data_filename :: string

text \<open>
  What the browser answers is a parameter of the model: whether the file can be read,
  whether its data URL decodes to an image and with which native width and height, what
  the canvas encoder returns, and what \<^verbatim>\<open>querySelector('.download-btn')\<close> finds in a card
  whose markup holds characters that the HTML parser does not take literally: a button
  with its attributes as parsed, or nothing, and then the message of the \<^verbatim>\<open>TypeError\<close>
  raised by the call of \<^verbatim>\<open>addEventListener\<close> on \<^verbatim>\<open>null\<close>.
\<close>

record browser =
  readAsDataURL :: "File \<Rightarrow> data_url option"
  decode :: "data_url \<Rightarrow> (nat \<times> nat) option"
  toDataURL :: "canvas \<Rightarrow> string \<Rightarrow> number \<Rightarrow> data_url"
  querySelector :: "markup \<Rightarrow> string + button"

section \<open>The compression pipeline\<close>

text \<open>
  A promise is resolved, rejected with the message of its \<^verbatim>\<open>Error\<close>, or left pending for
  ever. \<open>compressImage\<close> also returns the browser operations it started, in order.
\<close>

datatype 'a promise = Resolved 'a | Rejected string | Pending

datatype call =
    Read File
  | Load data_url
  | Draw draw
  | Encode canvas string number

record compression =
  compressedDataUrl :: data_url
  compressedBlob :: Blob
  compressedSize :: nat

definition MAX_DIMENSION :: nat where
  "MAX_DIMENSION = 1920"

definition resize_logic :: "nat \<Rightarrow> nat \<Rightarrow> nat \<times> nat" where
  \<comment> \<open>the values stored into \<^verbatim>\<open>canvas.width\<close> and \<^verbatim>\<open>canvas.height\<close>\<close>
  "resize_logic w h =
     (if w > MAX_DIMENSION \<or> h > MAX_DIMENSION then
        let ratio = Math_min (js_div (num MAX_DIMENSION) (num w))
                             (js_div (num MAX_DIMENSION) (num h))
        in (to_unsigned_long (js_mul (num w) ratio), to_unsigned_long (js_mul (num h) ratio))
      else (to_unsigned_long (num w), to_unsigned_long (num h)))"

definition quality_format_logic :: "string \<Rightarrow> (string \<times> number) option" where
  \<comment> \<open>\<open>mimeType\<close> and \<open>quality\<close>; \<open>None\<close> is the last branch, which rejects\<close>
  "quality_format_logic t =
     (if t = ''image/jpeg'' then Some (''image/jpeg'', Fin (1 / 4))
      else if t = ''image/png'' then Some (''image/webp'', Fin (1 / 4))
      else if t = ''image/webp'' then Some (''image/webp'', Fin (1 / 4))
      else None)"

definition size_guarantee_fallback ::
  "File \<Rightarrow> data_url \<Rightarrow> data_url \<Rightarrow> Blob \<Rightarrow> compression" where
  "size_guarantee_fallback f originalDataUrl compressedUrl compressed =
     (let originalSize = size_of f; compressedSz = size_of compressed
      in if compressedSz \<ge> originalSize
         then \<lparr>compressedDataUrl = originalDataUrl, compressedBlob = as_blob f,
               compressedSize = originalSize\<rparr>
         else \<lparr>compressedDataUrl = compressedUrl, compressedBlob = compressed,
               compressedSize = compressedSz\<rparr>)"

text \<open>
  The handlers of \<open>compressImage\<close> in the order they run. An exception thrown inside the
  image's load handler is not caught by the promise: with \<open>NoData\<close>, \<^verbatim>\<open>parts[1]\<close> is
  undefined, \<^verbatim>\<open>atob\<close> throws, and neither \<^verbatim>\<open>resolve\<close> nor \<^verbatim>\<open>reject\<close> is ever called.
\<close>

definition compressImage :: "browser \<Rightarrow> File \<Rightarrow> call list \<times> compression promise" where
  "compressImage env f =
     (case readAsDataURL env f of
        None \<Rightarrow> ([Read f], Rejected ''Failed to read file.'')
      | Some originalDataUrl \<Rightarrow>
          (case decode env originalDataUrl of
             None \<Rightarrow> ([Read f, Load originalDataUrl], Rejected ''Failed to load image.'')
           | Some (w, h) \<Rightarrow>
               let (cw, ch) = resize_logic w h;
                   d = DrawImage originalDataUrl 0 0 cw ch;
                   cv = \<lparr>width = cw, height = ch, content = [d]\<rparr>;
                   started = [Read f, Load originalDataUrl, Draw d]
               in (case quality_format_logic (type f) of
                     None \<Rightarrow> (started, Rejected ''Unsupported file format.'')
                   | Some (mimeType, quality) \<Rightarrow>
                       let calls = started @ [Encode cv mimeType quality]
                       in (case toDataURL env cv mimeType quality of
                             NoData \<Rightarrow> (calls, Pending)
                           | Base64 contentType raw \<Rightarrow>
                               (calls,
                                Resolved (size_guarantee_fallback f originalDataUrl
                                   (Base64 contentType raw)
                                   \<lparr>type = contentType, bytes = raw\<rparr>))))))"

definition supported_type :: "string \<Rightarrow> bool" where
  "supported_type t = (t = ''image/jpeg'' \<or> t = ''image/png'' \<or> t = ''image/webp'')"

section \<open>Result cards\<close>

text \<open>
  The string operations of \<open>createResultCard\<close>. Characters are bytes of the UTF-8 form
  of the name; the characters the code looks for (\<^verbatim>\<open>.\<close> and \<^verbatim>\<open>/\<close>) are ASCII, so
  working on bytes gives the same cuts as working on UTF-16 code units.
\<close>

fun split_on :: "char \<Rightarrow> string \<Rightarrow> string list" where
  \<comment> \<open>\<^verbatim>\<open>s.split(c)\<close> for a one-character separator: never empty\<close>
  "split_on c [] = [[]]"
| "split_on c (x # xs) =
     (if x = c then [] # split_on c xs
      else (let ps = split_on c xs in (x # hd ps) # tl ps))"

definition pop :: "string list \<Rightarrow> string" where
  \<comment> \<open>\<^verbatim>\<open>parts.pop()\<close> on the non-empty result of a split\<close>
  "pop ps = last ps"

fun extension_here :: "string \<Rightarrow> bool" where
  \<comment> \<open>whether \<^verbatim>\<open>/\.[^/.]+$/\<close> matches the whole of this suffix\<close>
  "extension_here [] = False"
| "extension_here (c # cs) =
     (c = CHR ''.'' \<and> cs \<noteq> [] \<and> list_all (\<lambda>d. d \<noteq> CHR ''/'' \<and> d \<noteq> CHR ''.'') cs)"

fun replace_extension :: "string \<Rightarrow> string" where
  \<comment> \<open>\<^verbatim>\<open>s.replace(/\.[^/.]+$/, "")\<close>: the leftmost match is removed\<close>
  "replace_extension [] = []"
| "replace_extension (c # cs) =
     (if extension_here (c # cs) then [] else c # replace_extension cs)"

fun starts_with :: "string \<Rightarrow> string \<Rightarrow> bool" where
  "starts_with s [] = True"
| "starts_with [] (p # ps) = False"
| "starts_with (c # cs) (p # ps) = (c = p \<and> starts_with cs ps)"

fun includes_str :: "string \<Rightarrow> string \<Rightarrow> bool" where
  \<comment> \<open>\<^verbatim>\<open>s.includes(p)\<close>\<close>
  "includes_str [] p = starts_with [] p"
| "includes_str (c # cs) p = (starts_with (c # cs) p \<or> includes_str cs p)"

fun decimal :: "nat \<Rightarrow> string" where
  \<comment> \<open>a natural number in decimal digits\<close>
  "decimal n =
     (if n < 10 then [''0123456789'' ! n] else decimal (n div 10) @ [''0123456789'' ! (n mod 10)])"

declare decimal.simps [simp del]

fun toFixed1 :: "number \<Rightarrow> string" where
  \<comment> \<open>\<^verbatim>\<open>x.toFixed(1)\<close>: the integer \<open>n\<close> with \<open>n / 10\<close> nearest to the exact value of \<open>x\<close>,
      the larger one of two; written with one digit after the point. (From \<open>10 ^ 21\<close> on
      JavaScript prints an exponent instead; no value printed here exceeds 100.)\<close>
  "toFixed1 (Fin x) =
     (let n = nat \<lfloor>\<bar>x\<bar> * 10 + 1 / 2\<rfloor>
      in (if x < 0 then ''-'' else []) @ decimal (n div 10) @ ''.'' @ decimal (n mod 10))"
| "toFixed1 PosInf = ''Infinity''"
| "toFixed1 NegInf = ''-Infinity''"
| "toFixed1 NaN = ''NaN''"

text \<open>
  The markup is assigned to \<^verbatim>\<open>innerHTML\<close> with the strings pasted in unescaped, and the
  download button is then looked up in what the parser made of it. In text and in a
  double-quoted attribute value the parser takes every character literally except \<^verbatim>\<open><\<close>,
  \<^verbatim>\<open>&\<close>, the double quote, NUL and carriage return. When the name shown, the file name of
  the download and the media type of the preview have none of these, the button is there
  with its attributes as written; otherwise the answer is the browser's.
\<close>

definition plain :: "string \<Rightarrow> bool" where
  "plain s = list_all (\<lambda>c. c \<noteq> CHR ''<'' \<and> c \<noteq> CHR ''&'' \<and> c \<noteq> CHR 0x22 \<and>
                             c \<noteq> CHR 0x00 \<and> c \<noteq> CHR 0x0D) s"

definition plain_markup :: "markup \<Rightarrow> bool" where
  "plain_markup m =
     (plain (shownName m) \<and> plain (fileName m) \<and>
      (case finalDataUrl m of Base64 t raw \<Rightarrow> plain t | NoData \<Rightarrow> True))"

definition download_btn :: "browser \<Rightarrow> markup \<Rightarrow> string + button" where
  \<comment> \<open>\<^verbatim>\<open>card.querySelector('.download-btn')\<close> after \<^verbatim>\<open>card.innerHTML = ...\<close>\<close>
  "download_btn env m =
     (if plain_markup m
      then Inr \<lparr>data_url = ObjectURL (downloadUrl m), data_filename = fileName m\<rparr>
      else querySelector env m)"

definition card_markup :: "File \<Rightarrow> data_url \<Rightarrow> nat \<Rightarrow> Blob \<Rightarrow> markup" where
  \<comment> \<open>the first part of \<open>createResultCard\<close>, up to the template filled\<close>
  "card_markup originalFile finalDataUrl' finalSize finalBlob =
     (let originalSize = size_of originalFile;
          originalFormat = pop (split_on CHR ''.'' (name originalFile));
          stem = replace_extension (name originalFile);
          isWebP = includes_str (type finalBlob) ''webp'';
          finalExtension = (if isWebP then ''webp'' else originalFormat);
          reductionPercentage = js_mul (js_div (num finalSize) (num originalSize)) (Fin 100);
          m = \<lparr>finalDataUrl = finalDataUrl', shownName = name originalFile,
               shownOriginal = originalSize, shownFinal = finalSize,
               barWidth = Math_min reductionPercentage (Fin 100),
               reductionClass = [], reductionText = [],
               downloadUrl = finalBlob, fileName = stem\<rparr>
      in if finalSize < originalSize then
           let reduction = js_sub (Fin 100) reductionPercentage
           in m\<lparr>reductionText := ''-'' @ toFixed1 reduction @ ''% Reduction'',
                reductionClass := ''bg-green-100 text-green-700'',
                fileName := stem @ ''_compressed.'' @ finalExtension\<rparr>
         else
           m\<lparr>reductionText := ''0% Reduction (Used Original)'',
             reductionClass := ''bg-yellow-100 text-yellow-700'',
             fileName := name originalFile\<rparr>)"

text \<open>
  A card is the element returned: its classes, its markup, and the download button that
  the click handler reads the file name from. Without a button the function throws.
\<close>

record card =
  classes :: "string list"
  innerHTML :: markup
  downloadButton :: button

definition createResultCard ::
  "browser \<Rightarrow> File \<Rightarrow> data_url \<Rightarrow> nat \<Rightarrow> Blob \<Rightarrow> string + card" where
  "createResultCard env originalFile finalDataUrl' finalSize finalBlob =
     (let m = card_markup originalFile finalDataUrl' finalSize finalBlob
      in case download_btn env m of
           Inl message \<Rightarrow> Inl message
         | Inr b \<Rightarrow>
             Inr \<lparr>classes = [''result-card'', ''glass-card'', ''p-6'', ''transition'',
                              ''duration-300'', ''hover:scale-[1.03]''],
                  innerHTML = m, downloadButton = b\<rparr>)"

section \<open>The batch orchestrator\<close>

text \<open>
  \<open>processFiles\<close> acts on the page only. Its model returns these actions in the order
  the code performs them, one event per statement, and whether the function ran to its
  end: a pipeline promise that stays pending suspends it for ever at its \<^verbatim>\<open>await\<close>.
\<close>

datatype element =
  resultsContainer | mobileResultsCarousel | resultsSection | progressIndicator

datatype event =
    ClearInnerHTML element
  | AddClass element string
  | RemoveClass element string
  | SetFileCount nat
  | Compress File
  | AppendChild element card
  | SetProgressWidth number
  | ConsoleError string string
  | ShowToast string string
  | ScrollIntoView element

record run =
  events :: "event list"
  finished :: bool

definition supported :: "File \<Rightarrow> bool" where
  \<comment> \<open>the predicate of the filter\<close>
  "supported f =
     (type f = ''image/jpeg'' \<or> type f = ''image/png'' \<or> type f = ''image/webp'')"

definition progress :: "nat \<Rightarrow> nat \<Rightarrow> number" where
  \<comment> \<open>\<^verbatim>\<open>(completedCount / supportedFiles.length) * 100\<close>, the bar's width in percent\<close>
  "progress completedCount len = js_mul (js_div (num completedCount) (num len)) (Fin 100)"

datatype 'a outcome = Returned 'a | Thrown string | Waiting

definition try_block :: "browser \<Rightarrow> File \<Rightarrow> card outcome" where
  \<comment> \<open>what the body of the \<^verbatim>\<open>try\<close> comes to before it touches the page: the card made, the
      message of the error thrown by the \<^verbatim>\<open>await\<close> or by \<open>createResultCard\<close>, or a wait
      without end\<close>
  "try_block env f =
     (case snd (compressImage env f) of
        Pending \<Rightarrow> Waiting
      | Rejected message \<Rightarrow> Thrown message
      | Resolved r \<Rightarrow>
          (case createResultCard env f (compressedDataUrl r) (compressedSize r)
                  (compressedBlob r) of
             Inl message \<Rightarrow> Thrown message
           | Inr desktopCard \<Rightarrow> Returned desktopCard))"

fun process_loop :: "browser \<Rightarrow> nat \<Rightarrow> File list \<Rightarrow> nat \<Rightarrow> event list \<times> nat option" where
  \<comment> \<open>the \<^verbatim>\<open>for\<close> loop, from a value of \<open>completedCount\<close>; \<open>None\<close> when it never ends\<close>
  "process_loop env len [] completedCount = ([], Some completedCount)"
| "process_loop env len (f # fs) completedCount =
     (case try_block env f of
        Waiting \<Rightarrow> ([Compress f], None)
      | Returned desktopCard \<Rightarrow>
          (let mobileCard = desktopCard\<lparr>classes :=
                               classes desktopCard @ [''mobile-carousel-card'', ''w-full'']\<rparr>;
               rest = process_loop env len fs (completedCount + 1)
           in ([Compress f,
                AppendChild resultsContainer desktopCard,
                AppendChild mobileResultsCarousel mobileCard,
                SetProgressWidth (progress (completedCount + 1) len)] @ fst rest,
               snd rest))
      | Thrown message \<Rightarrow>
          (let rest = process_loop env len fs (completedCount + 1)
           in ([Compress f,
                ConsoleError (name f) message,
                ShowToast (''Compression failed for '' @ name f @ ''. Error: '' @ message)
                  ''error'',
                SetProgressWidth (progress (completedCount + 1) len)] @ fst rest,
               snd rest)))"

definition processFiles :: "browser \<Rightarrow> File list \<Rightarrow> run" where
  "processFiles env files =
     (let cleared = [ClearInnerHTML resultsContainer, ClearInnerHTML mobileResultsCarousel,
                     AddClass resultsSection ''hidden''];
          supportedFiles = filter supported files
      in if length supportedFiles = 0 then
           \<lparr>events = cleared @
              (if length files > 0
               then [ShowToast ''None of the selected files are supported (JPG, PNG, WebP).''
                       ''error'']
               else []),
            finished = True\<rparr>
         else
           let shown = [RemoveClass resultsSection ''hidden'',
                        RemoveClass progressIndicator ''hidden'',
                        SetFileCount (length supportedFiles)];
               looped = process_loop env (length supportedFiles) supportedFiles 0
           in (case snd looped of
                 None \<Rightarrow> \<lparr>events = cleared @ shown @ fst looped, finished = False\<rparr>
               | Some completedCount \<Rightarrow>
                   \<lparr>events = cleared @ shown @ fst looped @
                      [AddClass progressIndicator ''hidden'',
                       ShowToast (''Batch compression complete! '' @ decimal completedCount @
                                  '' images ready for download.'') ''success'',
                       ScrollIntoView resultsSection],
                    finished = True\<rparr>))"

section \<open>Readings of a run\<close>

fun progress_values :: "event list \<Rightarrow> number list" where
  \<comment> \<open>the widths given to the progress bar, in order\<close>
  "progress_values [] = []"
| "progress_values (SetProgressWidth p # es) = p # progress_values es"
| "progress_values (e # es) = progress_values es"

fun invocations :: "event list \<Rightarrow> File list" where
  \<comment> \<open>the files handed to the pipeline, in order\<close>
  "invocations [] = []"
| "invocations (Compress f # es) = f # invocations es"
| "invocations (e # es) = invocations es"

fun notices :: "event list \<Rightarrow> string list" where
  \<comment> \<open>the error notices shown, in order\<close>
  "notices [] = []"
| "notices (ShowToast m t # es) = (if t = ''error'' then m # notices es else notices es)"
| "notices (e # es) = notices es"

datatype entry = Card card | Failed string string

fun entries :: "event list \<Rightarrow> entry list" where
  \<comment> \<open>the cards put into the results and the failures logged (file name and message),
      in order\<close>
  "entries [] = []"
| "entries (AppendChild resultsContainer c # es) = Card c # entries es"
| "entries (ConsoleError n m # es) = Failed n m # entries es"
| "entries (e # es) = entries es"

definition expected :: "browser \<Rightarrow> File \<Rightarrow> entry list" where
  \<comment> \<open>the entry a file is due once its compression has settled, and none before: its card,
      or its name with the message of the rejection or of the error thrown on making the
      card\<close>
  "expected env f =
     (case snd (compressImage env f) of
        Resolved r \<Rightarrow>
          (case createResultCard env f (compressedDataUrl r) (compressedSize r)
                  (compressedBlob r) of
             Inr c \<Rightarrow> [Card c]
           | Inl message \<Rightarrow> [Failed (name f) message])
      | Rejected message \<Rightarrow> [Failed (name f) message]
      | Pending \<Rightarrow> [])"

definition settles :: "browser \<Rightarrow> File \<Rightarrow> bool" where
  "settles env f = (snd (compressImage env f) \<noteq> Pending)"

section \<open>Readings of a pipeline run\<close>

definition decode_or_render :: "call \<Rightarrow> bool" where
  \<comment> \<open>decoding, drawing or encoding, as opposed to reading the bytes\<close>
  "decode_or_render c = (case c of Read f \<Rightarrow> False | _ \<Rightarrow> True)"

definition encodes :: "call \<Rightarrow> bool" where
  "encodes c = (case c of Encode cv m q \<Rightarrow> True | _ \<Rightarrow> False)"

section \<open>Sample inputs\<close>

text \<open>
  A small browser for concrete runs. A file with no bytes cannot be read; an image is
  decodable when it has four bytes or more, the first four giving width and height
  (two bytes each, high byte first); the encoder answers \<^verbatim>\<open>data:,\<close> for a canvas without
  pixels and otherwise a payload that grows with the canvas width. In markup that is not
  plain, a name shown that opens a comment swallows the download button, and a double
  quote ends the file name attribute.
\<close>

definition sample_browser :: browser where
  "sample_browser =
     \<lparr>readAsDataURL = (\<lambda>f. if bytes f = [] then None else Some (Base64 (type f) (bytes f))),
      decode = (\<lambda>u. case u of
                  Base64 t (a # b # c # d # rest) \<Rightarrow> Some (256 * a + b, 256 * c + d)
                | _ \<Rightarrow> None),
      toDataURL = (\<lambda>cv m q. if width cv = 0 \<or> height cv = 0 then NoData
                             else Base64 m (replicate (width cv div 256 + 6) 0)),
      querySelector = (\<lambda>m. if includes_str (shownName m) ''<!--''
                            then Inl ''downloadButton is null''
                            else Inr \<lparr>data_url = ObjectURL (downloadUrl m),
                                      data_filename =
                                        takeWhile (\<lambda>c. c \<noteq> CHR 0x22) (fileName m)\<rparr>)\<rparr>"

definition tiny_jpeg :: File where
  \<comment> \<open>2 by 2 pixels, 4 bytes: re-encoding gives 6 bytes\<close>
  "tiny_jpeg = \<lparr>type = ''image/jpeg'', bytes = [0, 2, 0, 2], name = ''tiny.jpg''\<rparr>"

definition photo_png :: File where
  \<comment> \<open>2148 by 1000 pixels, 20 bytes: re-encoding gives 13 bytes\<close>
  "photo_png = \<lparr>type = ''image/png'', bytes = [8, 100, 3, 232] @ replicate 16 0,
                 name = ''photo.png''\<rparr>"

definition small_webp :: File where
  \<comment> \<open>2 by 2 pixels, 10 bytes: re-encoding gives 6 bytes\<close>
  "small_webp = \<lparr>type = ''image/webp'', bytes = [0, 2, 0, 2, 9, 9, 9, 9, 9, 9],
                  name = ''small.webp''\<rparr>"

definition broken_webp :: File where
  \<comment> \<open>readable, not decodable\<close>
  "broken_webp = \<lparr>type = ''image/webp'', bytes = [1, 2], name = ''broken.webp''\<rparr>"

definition anim_gif :: File where
  \<comment> \<open>a decodable image of a type outside the supported three\<close>
  "anim_gif = \<lparr>type = ''image/gif'', bytes = [0, 2, 0, 2], name = ''anim.gif''\<rparr>"

definition report_pdf :: File where
  "report_pdf = \<lparr>type = ''application/pdf'', bytes = [37, 80], name = ''report.pdf''\<rparr>"

definition strip_png :: File where
  \<comment> \<open>4000 by 2 pixels\<close>
  "strip_png = \<lparr>type = ''image/png'', bytes = [15, 160, 0, 2, 0, 0], name = ''strip.png''\<rparr>"


definition comment_png :: File where
  \<comment> \<open>2 by 2 pixels, 10 bytes, under a name that opens an HTML comment\<close>
  "comment_png = \<lparr>type = ''image/png'', bytes = [0, 2, 0, 2, 9, 9, 9, 9, 9, 9],
                   name = ''a<!--b.png''\<rparr>"


section \<open>Rounding to a double\<close>

lemma pow2_pos: "0 < (2::rat) powi e"
  by simp

lemma pow2_mono: "a \<le> b \<Longrightarrow> (2::rat) powi a \<le> 2 powi b"
  by (rule power_int_increasing) simp_all

lemma pow2_strict_mono: "a < b \<Longrightarrow> (2::rat) powi a < 2 powi b"
  by (rule power_int_strict_increasing) simp_all

lemma pow2_Suc: "(2::rat) powi (e + 1) = 2 * 2 powi e"
  by (simp add: power_int_add)

lemma ilog2_unique_aux:
  assumes "(2::rat) powi e \<le> x" "x < 2 powi (e' + 1)"
  shows "e \<le> e'"
proof (rule ccontr)
  assume "\<not> e \<le> e'"
  then have "e' + 1 \<le> e" by simp
  then have "(2::rat) powi (e' + 1) \<le> 2 powi e" by (rule pow2_mono)
  with assms show False by simp
qed

lemma ilog2_bounds:
  assumes "0 < x"
  shows "2 powi (ilog2 x) \<le> x \<and> x < 2 powi (ilog2 x + 1)"
proof -
  obtain p q where pq: "quotient_of x = (p, q)" by (cases "quotient_of x")
  then have q: "0 < q" and x: "x = of_int p / of_int q"
    by (simp_all add: quotient_of_denom_pos quotient_of_div)
  from assms x q have p: "0 < p"
    by (simp add: zero_less_divide_iff)
  define bp where "bp = bitlen p"
  define bq where "bq = bitlen q"
  have bp1: "1 \<le> bp" and bq1: "1 \<le> bq"
    using p q by (auto simp: bp_def bq_def bitlen_alt_def)
  from bitlen_bounds [OF p] have pl: "2 ^ nat (bp - 1) \<le> p" and pu: "p < 2 ^ nat bp"
    by (simp_all add: bp_def)
  from bitlen_bounds [OF q] have ql: "2 ^ nat (bq - 1) \<le> q" and qu: "q < 2 ^ nat bq"
    by (simp_all add: bq_def)
  have P1: "(2::rat) powi (bp - 1) \<le> of_int p"
  proof -
    have "(of_int (2 ^ nat (bp - 1)) :: rat) \<le> of_int p" using pl by (simp only: of_int_le_iff)
    then show ?thesis using bp1 by (simp add: power_int_nonneg_exp)
  qed
  have P2: "(of_int p :: rat) < 2 powi bp"
  proof -
    have "(of_int p :: rat) < of_int (2 ^ nat bp)" using pu by (simp only: of_int_less_iff)
    then show ?thesis using bp1 by (simp add: power_int_nonneg_exp)
  qed
  have Q1: "(2::rat) powi (bq - 1) \<le> of_int q"
  proof -
    have "(of_int (2 ^ nat (bq - 1)) :: rat) \<le> of_int q" using ql by (simp only: of_int_le_iff)
    then show ?thesis using bq1 by (simp add: power_int_nonneg_exp)
  qed
  have Q2: "(of_int q :: rat) < 2 powi bq"
  proof -
    have "(of_int q :: rat) < of_int (2 ^ nat bq)" using qu by (simp only: of_int_less_iff)
    then show ?thesis using bq1 by (simp add: power_int_nonneg_exp)
  qed
  define d where "d = bp - bq"
  have qpos: "0 < (of_int q :: rat)" using q by simp
  have lower: "2 powi (d - 1) \<le> x"
  proof -
    have "(2::rat) powi (d - 1) * of_int q \<le> 2 powi (d - 1) * 2 powi bq"
      using Q2 by (intro mult_left_mono) simp_all
    also have "\<dots> = 2 powi (bp - 1)"
      by (simp add: d_def power_int_add [symmetric])
    also have "\<dots> \<le> of_int p" by (rule P1)
    finally show ?thesis using qpos by (simp add: x pos_le_divide_eq)
  qed
  have upper: "x < 2 powi (d + 1)"
  proof -
    have "(of_int p :: rat) < 2 powi bp" by (rule P2)
    also have "\<dots> = 2 powi (d + 1) * 2 powi (bq - 1)"
      by (simp add: d_def power_int_add [symmetric])
    also have "\<dots> \<le> 2 powi (d + 1) * of_int q"
      using Q1 by (intro mult_left_mono) simp_all
    finally show ?thesis using qpos by (simp add: x pos_divide_less_eq)
  qed
  have il: "ilog2 x = (if 2 powi d \<le> x then d else d - 1)"
    by (simp add: ilog2_def pq d_def bp_def bq_def Let_def)
  show ?thesis
  proof (cases "2 powi d \<le> x")
    case True
    with il upper show ?thesis by simp
  next
    case False
    with il lower show ?thesis by simp
  qed
qed

lemma ilog2_eqI:
  assumes "2 powi e \<le> x" "x < 2 powi (e + 1)"
  shows "ilog2 x = e"
proof -
  have "0 < (2::rat) powi e" by simp
  with assms have x: "0 < x" by linarith
  from ilog2_bounds [OF x] have b: "2 powi (ilog2 x) \<le> x" "x < 2 powi (ilog2 x + 1)"
    by simp_all
  from ilog2_unique_aux [OF b(1) assms(2)] ilog2_unique_aux [OF assms(1) b(2)]
  show ?thesis by simp
qed

lemma ilog2_mono:
  assumes "0 < x" "x \<le> y"
  shows "ilog2 x \<le> ilog2 y"
proof -
  from assms have y: "0 < y" by simp
  from ilog2_bounds [OF assms(1)] ilog2_bounds [OF y] assms(2)
  have "2 powi (ilog2 x) \<le> y" "y < 2 powi (ilog2 y + 1)" by auto
  then show ?thesis by (rule ilog2_unique_aux)
qed

lemma rne_err: "\<bar>of_int (rne m) - m\<bar> \<le> 1 / 2"
  unfolding rne_def Let_def by (auto simp: abs_if; linarith)

lemma rne_eqI: "\<bar>m - of_int k\<bar> < 1 / 2 \<Longrightarrow> rne m = k"
proof -
  assume a: "\<bar>m - of_int k\<bar> < 1 / 2"
  have "\<bar>of_int (rne m) - m\<bar> \<le> 1 / 2" by (rule rne_err)
  with a have "\<bar>(of_int (rne m) :: rat) - of_int k\<bar> < 1" by linarith
  then have "\<bar>(of_int (rne m - k) :: rat)\<bar> < 1" by simp
  then have "\<bar>rne m - k\<bar> < 1" by (simp only: of_int_abs [symmetric] of_int_less_1_iff)
  then show ?thesis by simp
qed

lemma rne_of_int [simp]: "rne (of_int k) = k"
  by (rule rne_eqI) simp

lemma rne_mono:
  assumes "m \<le> m'"
  shows "rne m \<le> rne m'"
proof (cases "\<lfloor>m\<rfloor> = \<lfloor>m'\<rfloor>")
  case True
  with assms show ?thesis unfolding rne_def Let_def by auto
next
  case False
  with assms have "\<lfloor>m\<rfloor> < \<lfloor>m'\<rfloor>" by (simp add: floor_mono order.strict_iff_order)
  moreover have "rne m \<le> \<lfloor>m\<rfloor> + 1" unfolding rne_def Let_def by auto
  moreover have "\<lfloor>m'\<rfloor> \<le> rne m'" unfolding rne_def Let_def by auto
  ultimately show ?thesis by linarith
qed

lemma nearest_expo: "nearest a = of_int (rne (a / 2 powi (expo a - 52))) * 2 powi (expo a - 52)"
  by (simp add: nearest_def Let_def)

lemma expo_mono: "0 < a \<Longrightarrow> a \<le> b \<Longrightarrow> expo a \<le> expo b"
  using ilog2_mono [of a b] by (simp add: expo_def)

lemma expo_upper: "0 < a \<Longrightarrow> a < 2 powi (expo a + 1)"
proof -
  assume a: "0 < a"
  from ilog2_bounds [OF a] have "a < 2 powi (ilog2 a + 1)" by simp
  also have "\<dots> \<le> 2 powi (expo a + 1)" by (rule pow2_mono) (simp add: expo_def)
  finally show ?thesis .
qed

lemma scale_split: "(2::rat) powi (e + 1) = 2 ^ 53 * 2 powi (e - 52)"
proof -
  have eq: "e + 1 = 53 + (e - 52)" by simp
  show ?thesis by (subst eq, subst power_int_add) simp_all
qed

lemma scale_split0: "(2::rat) powi e = 2 ^ 52 * 2 powi (e - 52)"
proof -
  have "(2::rat) powi e = 2 powi (52 + (e - 52))" by simp
  also have "\<dots> = 2 powi 52 * 2 powi (e - 52)" by (rule power_int_add) simp
  finally show ?thesis by simp
qed

lemma nearest_upper:
  assumes "0 < a"
  shows "nearest a \<le> 2 powi (expo a + 1)"
proof -
  let ?u = "(2::rat) powi (expo a - 52)"
  have u: "0 < ?u" by simp
  from expo_upper [OF assms] have "a < 2 ^ 53 * ?u" by (simp only: scale_split)
  then have "a / ?u \<le> of_int (2 ^ 53)" using u by (simp add: pos_divide_le_eq)
  then have "rne (a / ?u) \<le> rne (of_int (2 ^ 53))" by (rule rne_mono)
  then have "rne (a / ?u) \<le> 2 ^ 53" by (simp only: rne_of_int)
  then have "(of_int (rne (a / ?u)) :: rat) \<le> of_int (2 ^ 53)" by (simp only: of_int_le_iff)
  then have "of_int (rne (a / ?u)) * ?u \<le> 2 ^ 53 * ?u"
    using u by (intro mult_right_mono) simp_all
  then show ?thesis by (simp only: nearest_expo scale_split)
qed

lemma nearest_lower:
  assumes "0 < a" "- 1022 \<le> ilog2 a"
  shows "2 powi (expo a) \<le> nearest a"
proof -
  let ?u = "(2::rat) powi (expo a - 52)"
  have u: "0 < ?u" by simp
  from assms have e: "expo a = ilog2 a" by (simp add: expo_def)
  from ilog2_bounds [OF assms(1)] e have "2 powi (expo a) \<le> a" by simp
  then have "2 ^ 52 * ?u \<le> a" by (simp only: scale_split0 [symmetric])
  then have "of_int (2 ^ 52) \<le> a / ?u" using u by (simp add: pos_le_divide_eq)
  then have "rne (of_int (2 ^ 52)) \<le> rne (a / ?u)" by (rule rne_mono)
  then have "2 ^ 52 \<le> rne (a / ?u)" by (simp only: rne_of_int)
  then have "(of_int (2 ^ 52) :: rat) \<le> of_int (rne (a / ?u))" by (simp only: of_int_le_iff)
  then have "2 ^ 52 * ?u \<le> of_int (rne (a / ?u)) * ?u"
    using u by (intro mult_right_mono) simp_all
  then show ?thesis by (simp only: nearest_expo scale_split0 [symmetric])
qed

lemma nearest_mono:
  assumes "0 < a" "a \<le> b"
  shows "nearest a \<le> nearest b"
proof -
  from assms have b: "0 < b" by simp
  from expo_mono [OF assms] have le: "expo a \<le> expo b" .
  show ?thesis
  proof (cases "expo a = expo b")
    case True
    let ?u = "(2::rat) powi (expo b - 52)"
    have u: "0 < ?u" by simp
    from assms(2) u have "a / ?u \<le> b / ?u" by (simp add: divide_right_mono)
    then have "rne (a / ?u) \<le> rne (b / ?u)" by (rule rne_mono)
    then have "(of_int (rne (a / ?u)) :: rat) \<le> of_int (rne (b / ?u))"
      by (simp only: of_int_le_iff)
    then have "of_int (rne (a / ?u)) * ?u \<le> of_int (rne (b / ?u)) * ?u"
      using u by (intro mult_right_mono) simp_all
    then show ?thesis by (simp add: nearest_expo True)
  next
    case False
    with le have lt: "expo a + 1 \<le> expo b" by simp
    then have "- 1022 < expo b" by (simp add: expo_def)
    then have ib: "- 1022 \<le> ilog2 b" by (simp add: expo_def max_def split: if_splits)
    have "nearest a \<le> 2 powi (expo a + 1)" by (rule nearest_upper [OF assms(1)])
    also have "\<dots> \<le> 2 powi (expo b)" by (rule pow2_mono [OF lt])
    also have "\<dots> \<le> nearest b" by (rule nearest_lower [OF b ib])
    finally show ?thesis .
  qed
qed

lemma nearest_err:
  "\<bar>nearest a - a\<bar> \<le> 2 powi (expo a - 53)"
proof -
  let ?u = "(2::rat) powi (expo a - 52)"
  have u: "0 < ?u" by simp
  have "\<bar>of_int (rne (a / ?u)) - a / ?u\<bar> \<le> 1 / 2" by (rule rne_err)
  then have "\<bar>of_int (rne (a / ?u)) - a / ?u\<bar> * ?u \<le> 1 / 2 * ?u"
    using u by (intro mult_right_mono) simp_all
  moreover have "\<bar>of_int (rne (a / ?u)) - a / ?u\<bar> * ?u = \<bar>nearest a - a\<bar>"
  proof -
    have "\<bar>of_int (rne (a / ?u)) - a / ?u\<bar> * ?u = \<bar>(of_int (rne (a / ?u)) - a / ?u) * ?u\<bar>"
      using u by (simp add: abs_mult)
    also have "(of_int (rne (a / ?u)) - a / ?u) * ?u = nearest a - a"
      using u by (simp add: nearest_expo left_diff_distrib)
    finally show ?thesis .
  qed
  moreover have "1 / 2 * ?u = 2 powi (expo a - 53)"
  proof -
    have "(2::rat) powi (expo a - 52) = 2 powi (1 + (expo a - 53))" by simp
    also have "\<dots> = 2 powi 1 * 2 powi (expo a - 53)" by (rule power_int_add) simp
    finally show ?thesis by simp
  qed
  ultimately show ?thesis by simp
qed

lemma nearest_eqI:
  assumes "2 powi e \<le> a" "a < 2 powi (e + 1)" "- 1022 \<le> e"
    and "\<bar>a / 2 powi (e - 52) - of_int k\<bar> < 1 / 2"
  shows "nearest a = of_int k * 2 powi (e - 52)"
proof -
  from assms(1,2) have "ilog2 a = e" by (rule ilog2_eqI)
  with assms(3) have "expo a = e" by (simp add: expo_def)
  with rne_eqI [OF assms(4)] show ?thesis by (simp add: nearest_expo)
qed

lemma round64_pos: "0 < x \<Longrightarrow> nearest x < 2 powi 1024 \<Longrightarrow> round64 x = Fin (nearest x)"
  by (simp add: round64_def)

lemma round64_eqI:
  assumes "2 powi e \<le> x" "x < 2 powi (e + 1)" "- 1022 \<le> e" "e \<le> 1022"
    and "\<bar>x / 2 powi (e - 52) - of_int k\<bar> < 1 / 2"
  shows "round64 x = Fin (of_int k * 2 powi (e - 52))"
proof -
  have "0 < (2::rat) powi e" by simp
  with assms(1) have x: "0 < x" by linarith
  from assms(1,2) have "ilog2 x = e" by (rule ilog2_eqI)
  with assms(3) have ex: "expo x = e" by (simp add: expo_def)
  have "nearest x \<le> 2 powi (e + 1)" using nearest_upper [OF x] by (simp add: ex)
  also have "\<dots> < 2 powi 1024" by (rule pow2_strict_mono) (use assms(4) in simp)
  finally have "nearest x < 2 powi 1024" .
  with nearest_eqI [OF assms(1-3,5)] x show ?thesis
    by (simp add: round64_def)
qed

lemma nearest_0 [simp]: "nearest 0 = 0"
  by (simp add: nearest_def rne_def Let_def)

lemma nearest_nonneg:
  assumes "0 \<le> a"
  shows "0 \<le> nearest a"
proof -
  let ?u = "(2::rat) powi (expo a - 52)"
  have u: "0 < ?u" by simp
  from assms u have "of_int 0 \<le> a / ?u" by simp
  then have "rne (of_int 0) \<le> rne (a / ?u)" by (rule rne_mono)
  then have "0 \<le> rne (a / ?u)" by (simp only: rne_of_int)
  then show ?thesis using u by (simp add: nearest_expo)
qed

lemma nearest_mono0:
  assumes "0 \<le> a" "a \<le> b"
  shows "nearest a \<le> nearest b"
proof (cases "a = 0")
  case True
  with assms nearest_nonneg [of b] show ?thesis by simp
next
  case False
  with assms have "0 < a" by simp
  then show ?thesis using assms(2) by (rule nearest_mono)
qed

lemma nearest_1: "nearest 1 = 1"
  using nearest_eqI [of 0 1 4503599627370496] by (simp add: power_int_minus)

lemma nearest_100: "nearest 100 = 100"
  using nearest_eqI [of 6 100 7036874417766400] by (simp add: power_int_minus)

lemma round64_bounded:
  assumes "0 \<le> x" "x \<le> b" "nearest b = b" "b < 2 powi 1024"
  shows "round64 x = Fin (nearest x)" "0 \<le> nearest x" "nearest x \<le> b"
proof -
  show nn: "0 \<le> nearest x" by (rule nearest_nonneg [OF assms(1)])
  from nearest_mono0 [OF assms(1,2)] assms(3) show le: "nearest x \<le> b" by simp
  with assms(4) have "nearest x < 2 powi 1024" by simp
  with assms(1) show "round64 x = Fin (nearest x)"
    by (cases "x = 0") (simp_all add: round64_def)
qed

lemma pow2_1024_gt: "(100::rat) < 2 powi 1024" "(1::rat) < 2 powi 1024"
proof -
  have "(2::rat) powi 7 \<le> 2 powi 1024" by (rule pow2_mono) simp
  then show "(100::rat) < 2 powi 1024" "(1::rat) < 2 powi 1024" by simp_all
qed

lemma nearest_rel_err:
  assumes "0 \<le> a"
  shows "\<bar>nearest a - a\<bar> \<le> a * 2 powi (- 53) + 2 powi (- 1075)"
proof (cases "a = 0")
  case True
  then show ?thesis by simp
next
  case False
  with assms have a: "0 < a" by simp
  have e: "\<bar>nearest a - a\<bar> \<le> 2 powi (expo a - 53)" by (rule nearest_err)
  show ?thesis
  proof (cases "- 1022 \<le> ilog2 a")
    case True
    then have ex: "expo a = ilog2 a" by (simp add: expo_def)
    have "(2::rat) powi (ilog2 a - 53) = 2 powi (ilog2 a) * 2 powi (- 53)"
    proof -
      have "(2::rat) powi (ilog2 a + (- 53)) = 2 powi (ilog2 a) * 2 powi (- 53)"
        by (rule power_int_add) simp
      then show ?thesis by simp
    qed
    also have "\<dots> \<le> a * 2 powi (- 53)"
      using ilog2_bounds [OF a] by (intro mult_right_mono) simp_all
    finally have "(2::rat) powi (expo a - 53) \<le> a * 2 powi (- 53)" by (simp only: ex)
    moreover have "0 \<le> (2::rat) powi (- 1075)" by simp
    ultimately show ?thesis using e by linarith
  next
    case False
    then have ex: "expo a = - 1022" by (simp add: expo_def)
    have "(2::rat) powi (expo a - 53) = 2 powi (- 1075)" by (simp add: ex)
    moreover have "0 \<le> a * 2 powi (- 53)" using a by simp
    ultimately show ?thesis using e by linarith
  qed
qed

section \<open>Properties of the pipeline\<close>

lemma compressImage_Resolved:
  assumes "snd (compressImage env f) = Resolved r"
  obtains u w h m q t raw where
    "readAsDataURL env f = Some u" "decode env u = Some (w, h)"
    "quality_format_logic (type f) = Some (m, q)"
    "toDataURL env \<lparr>width = fst (resize_logic w h), height = snd (resize_logic w h),
        content = [DrawImage u 0 0 (fst (resize_logic w h)) (snd (resize_logic w h))]\<rparr> m q
       = Base64 t raw"
    "r = size_guarantee_fallback f u (Base64 t raw) \<lparr>type = t, bytes = raw\<rparr>"
  using assms
  by (auto simp: compressImage_def Let_def split: option.splits prod.splits data_url.splits)

lemma to_unsigned_long_num:
  assumes "n < 2 ^ 32"
  shows "to_unsigned_long (num n) = n"
proof -
  from assms have "int n < 2 ^ 32"
    by (metis of_nat_less_iff of_nat_numeral of_nat_power)
  then have "int n mod 2 ^ 32 = int n" by simp
  then show ?thesis by (simp add: num_def)
qed

lemma resize_small:
  assumes "w \<le> 1920" "h \<le> 1920"
  shows "resize_logic w h = (w, h)"
proof -
  from assms have "w < 2 ^ 32" "h < 2 ^ 32" by simp_all
  with assms show ?thesis
    by (simp add: resize_logic_def MAX_DIMENSION_def to_unsigned_long_num)
qed

lemma resize_2_2: "resize_logic 2 2 = (2, 2)"
  by (simp add: resize_logic_def MAX_DIMENSION_def num_def)

lemma replicate_6: "replicate 6 x = [x, x, x, x, x, x]"
  by (simp add: numeral_eq_Suc)

lemma tiny_jpeg_run:
  "compressImage sample_browser tiny_jpeg =
     ([Read tiny_jpeg, Load (Base64 ''image/jpeg'' [0, 2, 0, 2]),
       Draw (DrawImage (Base64 ''image/jpeg'' [0, 2, 0, 2]) 0 0 2 2),
       Encode \<lparr>width = 2, height = 2,
               content = [DrawImage (Base64 ''image/jpeg'' [0, 2, 0, 2]) 0 0 2 2]\<rparr>
         ''image/jpeg'' (Fin (1 / 4))],
      Resolved \<lparr>compressedDataUrl = Base64 ''image/jpeg'' [0, 2, 0, 2],
                compressedBlob = \<lparr>type = ''image/jpeg'', bytes = [0, 2, 0, 2]\<rparr>,
                compressedSize = 4\<rparr>)"
  by (simp add: compressImage_def sample_browser_def tiny_jpeg_def resize_logic_def
      MAX_DIMENSION_def num_def quality_format_logic_def size_guarantee_fallback_def
      size_of_def as_blob_def Let_def)

lemma small_webp_run:
  "compressImage sample_browser small_webp =
     ([Read small_webp, Load (Base64 ''image/webp'' [0, 2, 0, 2, 9, 9, 9, 9, 9, 9]),
       Draw (DrawImage (Base64 ''image/webp'' [0, 2, 0, 2, 9, 9, 9, 9, 9, 9]) 0 0 2 2),
       Encode \<lparr>width = 2, height = 2,
               content = [DrawImage (Base64 ''image/webp'' [0, 2, 0, 2, 9, 9, 9, 9, 9, 9])
                            0 0 2 2]\<rparr>
         ''image/webp'' (Fin (1 / 4))],
      Resolved \<lparr>compressedDataUrl = Base64 ''image/webp'' [0, 0, 0, 0, 0, 0],
                compressedBlob = \<lparr>type = ''image/webp'', bytes = [0, 0, 0, 0, 0, 0]\<rparr>,
                compressedSize = 6\<rparr>)"
  by (simp add: compressImage_def sample_browser_def small_webp_def resize_logic_def
      MAX_DIMENSION_def num_def quality_format_logic_def size_guarantee_fallback_def
      size_of_def as_blob_def Let_def replicate_6)

lemma anim_gif_run:
  "compressImage sample_browser anim_gif =
     ([Read anim_gif, Load (Base64 ''image/gif'' [0, 2, 0, 2]),
       Draw (DrawImage (Base64 ''image/gif'' [0, 2, 0, 2]) 0 0 2 2)],
      Rejected ''Unsupported file format.'')"
  by (simp add: compressImage_def sample_browser_def anim_gif_def resize_logic_def
      MAX_DIMENSION_def num_def quality_format_logic_def Let_def)

lemma broken_webp_run:
  "compressImage sample_browser broken_webp =
     ([Read broken_webp, Load (Base64 ''image/webp'' [1, 2])],
      Rejected ''Failed to load image.'')"
  by (simp add: compressImage_def sample_browser_def broken_webp_def)

text \<open>
  C1. Whenever \<open>compressImage\<close> resolves, the size it reports, and the size of the blob
  it returns, are at most the byte size of the source file.
\<close>

theorem C1_size_invariant:
  "snd (compressImage env f) = Resolved r \<Longrightarrow>
     compressedSize r \<le> size_of f \<and> size_of (compressedBlob r) \<le> size_of f"
  by (erule compressImage_Resolved)
     (simp add: size_guarantee_fallback_def Let_def size_of_def as_blob_def)

theorem C1_size_invariant_witness:
  "snd (compressImage sample_browser tiny_jpeg) =
     Resolved \<lparr>compressedDataUrl = Base64 ''image/jpeg'' [0, 2, 0, 2],
               compressedBlob = \<lparr>type = ''image/jpeg'', bytes = [0, 2, 0, 2]\<rparr>,
               compressedSize = 4\<rparr>
   \<and> (4::nat) \<le> size_of tiny_jpeg"
proof -
  have run: "snd (compressImage sample_browser tiny_jpeg) =
     Resolved \<lparr>compressedDataUrl = Base64 ''image/jpeg'' [0, 2, 0, 2],
               compressedBlob = \<lparr>type = ''image/jpeg'', bytes = [0, 2, 0, 2]\<rparr>,
               compressedSize = 4\<rparr>"
    by (simp add: tiny_jpeg_run)
  from C1_size_invariant [OF run] run show ?thesis by simp
qed

text \<open>
  C2. When the re-encoded bytes are at least as many as the file's, \<open>compressImage\<close>
  resolves with the file's own bytes, type, size and data URL; when they are fewer, with
  the re-encoded bytes, their type and their number.
\<close>

theorem C2_fallback:
  assumes "readAsDataURL env f = Some u"
    and "decode env u = Some (w, h)"
    and "resize_logic w h = (cw, ch)"
    and "quality_format_logic (type f) = Some (m, q)"
    and "toDataURL env \<lparr>width = cw, height = ch, content = [DrawImage u 0 0 cw ch]\<rparr> m q
           = Base64 t raw"
  shows "snd (compressImage env f) = Resolved
           (if length raw \<ge> size_of f
            then \<lparr>compressedDataUrl = u,
                  compressedBlob = \<lparr>type = type f, bytes = bytes f\<rparr>,
                  compressedSize = size_of f\<rparr>
            else \<lparr>compressedDataUrl = Base64 t raw,
                  compressedBlob = \<lparr>type = t, bytes = raw\<rparr>,
                  compressedSize = length raw\<rparr>)"
  using assms
  by (simp add: compressImage_def size_guarantee_fallback_def size_of_def as_blob_def Let_def)

theorem C2_fallback_witness:
  "snd (compressImage sample_browser tiny_jpeg) = Resolved
     \<lparr>compressedDataUrl = Base64 ''image/jpeg'' [0, 2, 0, 2],
      compressedBlob = \<lparr>type = ''image/jpeg'', bytes = [0, 2, 0, 2]\<rparr>,
      compressedSize = 4\<rparr> \<and>
   snd (compressImage sample_browser small_webp) = Resolved
     \<lparr>compressedDataUrl = Base64 ''image/webp'' [0, 0, 0, 0, 0, 0],
      compressedBlob = \<lparr>type = ''image/webp'', bytes = [0, 0, 0, 0, 0, 0]\<rparr>,
      compressedSize = 6\<rparr>"
proof -
  have a1: "readAsDataURL sample_browser tiny_jpeg = Some (Base64 ''image/jpeg'' [0, 2, 0, 2])"
    by (simp add: sample_browser_def tiny_jpeg_def)
  have a2: "decode sample_browser (Base64 ''image/jpeg'' [0, 2, 0, 2]) = Some (2, 2)"
    by (simp add: sample_browser_def)
  have a4: "quality_format_logic (type tiny_jpeg) = Some (''image/jpeg'', Fin (1 / 4))"
    by (simp add: quality_format_logic_def tiny_jpeg_def)
  have a5: "toDataURL sample_browser
       \<lparr>width = 2, height = 2,
          content = [DrawImage (Base64 ''image/jpeg'' [0, 2, 0, 2]) 0 0 2 2]\<rparr>
       ''image/jpeg'' (Fin (1 / 4)) = Base64 ''image/jpeg'' [0, 0, 0, 0, 0, 0]"
    by (simp add: sample_browser_def replicate_6)
  have b1: "readAsDataURL sample_browser small_webp =
              Some (Base64 ''image/webp'' [0, 2, 0, 2, 9, 9, 9, 9, 9, 9])"
    by (simp add: sample_browser_def small_webp_def)
  have b2: "decode sample_browser (Base64 ''image/webp'' [0, 2, 0, 2, 9, 9, 9, 9, 9, 9]) =
              Some (2, 2)"
    by (simp add: sample_browser_def)
  have b4: "quality_format_logic (type small_webp) = Some (''image/webp'', Fin (1 / 4))"
    by (simp add: quality_format_logic_def small_webp_def)
  have b5: "toDataURL sample_browser
       \<lparr>width = 2, height = 2,
          content = [DrawImage (Base64 ''image/webp'' [0, 2, 0, 2, 9, 9, 9, 9, 9, 9]) 0 0 2 2]\<rparr>
       ''image/webp'' (Fin (1 / 4)) = Base64 ''image/webp'' [0, 0, 0, 0, 0, 0]"
    by (simp add: sample_browser_def replicate_6)
  from C2_fallback [OF a1 a2 resize_2_2 a4 a5] C2_fallback [OF b1 b2 resize_2_2 b4 b5]
  show ?thesis
    by (simp add: size_of_def tiny_jpeg_def small_webp_def)
qed

lemma ratio_2148:
  "js_div (num 1920) (num 2148) = Fin (1006390978183351 / 1125899906842624)"
  using round64_eqI [of "- 1" "1920 / 2148" 8051127825466808]
  by (simp add: num_def power_int_minus)

lemma ratio_1000:
  "js_div (num 1920) (num 1000) = Fin (1080863910568919 / 562949953421312)"
  using round64_eqI [of 0 "1920 / 1000" 8646911284551352]
  by (simp add: num_def power_int_minus)

lemma width_2148:
  "js_mul (num 2148) (Fin (1006390978183351 / 1125899906842624)) =
     Fin (8444249301319679 / 4398046511104)"
  using round64_eqI [of 10 "2148 * (1006390978183351 / 1125899906842624)" 8444249301319679]
  by (simp add: num_def power_int_minus)

lemma height_1000:
  "js_mul (num 1000) (Fin (1006390978183351 / 1125899906842624)) =
     Fin (3931214758528715 / 4398046511104)"
  using round64_eqI [of 9 "1000 * (1006390978183351 / 1125899906842624)" 7862429517057430]
  by (simp add: num_def power_int_minus)

lemma truncated_width: "to_unsigned_long (Fin (8444249301319679 / 4398046511104)) = 1919"
proof -
  have "\<lfloor>8444249301319679 / 4398046511104 :: rat\<rfloor> = 1919" by (simp add: floor_eq_iff)
  then show ?thesis by simp
qed

lemma truncated_height: "to_unsigned_long (Fin (3931214758528715 / 4398046511104)) = 893"
proof -
  have "\<lfloor>3931214758528715 / 4398046511104 :: rat\<rfloor> = 893" by (simp add: floor_eq_iff)
  then show ?thesis by simp
qed

text \<open>
  C3. An image 2148 pixels wide and 1000 high gets a canvas 1919 wide, not 1920: the
  double \<open>1920 / 2148\<close> times 2148 is just below 1920, and the canvas truncates it.
\<close>

theorem C3_larger_side_1919: "resize_logic 2148 1000 = (1919, 893)"
proof -
  have "Math_min (js_div (num 1920) (num 2148)) (js_div (num 1920) (num 1000)) =
          Fin (1006390978183351 / 1125899906842624)"
    by (simp add: ratio_2148 ratio_1000)
  then show ?thesis
    by (simp add: resize_logic_def MAX_DIMENSION_def Let_def width_2148 height_1000
        truncated_width truncated_height del: to_unsigned_long.simps)
qed

text \<open>
  C4, as stated, fails: a decodable file of type \<^verbatim>\<open>image/gif\<close> is read, decoded and drawn
  on the canvas before \<open>compressImage\<close> rejects it.
\<close>

theorem C4_counterexample:
  "\<not> supported_type (type anim_gif) \<and>
   list_ex decode_or_render (fst (compressImage sample_browser anim_gif))"
  by (simp add: anim_gif_run decode_or_render_def) (simp add: anim_gif_def supported_type_def)

text \<open>
  C4, amended. For a file whose type is none of the supported three, \<open>compressImage\<close>
  never encodes and never resolves: it rejects with the read error when the file cannot
  be read, with the load error when it cannot be decoded, and otherwise, after the image
  has been decoded and drawn on the canvas, with \<^verbatim>\<open>Unsupported file format.\<close>
\<close>

theorem C4_unsupported_rejected:
  assumes "\<not> supported_type (type f)"
  shows "compressImage env f =
     (case readAsDataURL env f of
        None \<Rightarrow> ([Read f], Rejected ''Failed to read file.'')
      | Some u \<Rightarrow>
          (case decode env u of
             None \<Rightarrow> ([Read f, Load u], Rejected ''Failed to load image.'')
           | Some (w, h) \<Rightarrow>
               ([Read f, Load u,
                 Draw (DrawImage u 0 0 (fst (resize_logic w h)) (snd (resize_logic w h)))],
                Rejected ''Unsupported file format.'')))
     \<and> \<not> list_ex encodes (fst (compressImage env f))"
  using assms
  by (auto simp: compressImage_def supported_type_def quality_format_logic_def Let_def
      encodes_def split: option.splits prod.splits)

theorem C4_unsupported_rejected_witness:
  "\<not> supported_type (type anim_gif) \<and>
   compressImage sample_browser anim_gif =
     ([Read anim_gif, Load (Base64 ''image/gif'' [0, 2, 0, 2]),
       Draw (DrawImage (Base64 ''image/gif'' [0, 2, 0, 2]) 0 0 2 2)],
      Rejected ''Unsupported file format.'')"
proof -
  have ns: "\<not> supported_type (type anim_gif)"
    by (simp add: anim_gif_def supported_type_def)
  have r: "readAsDataURL sample_browser anim_gif = Some (Base64 ''image/gif'' [0, 2, 0, 2])"
    by (simp add: sample_browser_def anim_gif_def)
  have d: "decode sample_browser (Base64 ''image/gif'' [0, 2, 0, 2]) = Some (2, 2)"
    by (simp add: sample_browser_def)
  from C4_unsupported_rejected [OF ns, of sample_browser] ns show ?thesis
    by (simp add: r d resize_2_2)
qed

text \<open>
  C6. For a file of a supported type that is read and decoded, the one encoding
  \<open>compressImage\<close> asks for is JPEG for a JPEG file and WebP for a PNG or WebP file, each
  at quality 0.25.
\<close>

theorem C6_reencode_policy:
  assumes "supported_type (type f)"
    and "readAsDataURL env f = Some u"
    and "decode env u = Some (w, h)"
    and "resize_logic w h = (cw, ch)"
  shows "fst (compressImage env f) =
     [Read f, Load u, Draw (DrawImage u 0 0 cw ch),
      Encode \<lparr>width = cw, height = ch, content = [DrawImage u 0 0 cw ch]\<rparr>
        (if type f = ''image/jpeg'' then ''image/jpeg''
         else if type f = ''image/png'' then ''image/webp''
         else ''image/webp'')
        (Fin (1 / 4))]"
  using assms
  by (auto simp: compressImage_def supported_type_def quality_format_logic_def Let_def
      split: data_url.splits)

theorem C6_reencode_policy_witness:
  "fst (compressImage sample_browser small_webp) =
     [Read small_webp, Load (Base64 ''image/webp'' [0, 2, 0, 2, 9, 9, 9, 9, 9, 9]),
      Draw (DrawImage (Base64 ''image/webp'' [0, 2, 0, 2, 9, 9, 9, 9, 9, 9]) 0 0 2 2),
      Encode \<lparr>width = 2, height = 2,
              content = [DrawImage (Base64 ''image/webp'' [0, 2, 0, 2, 9, 9, 9, 9, 9, 9])
                           0 0 2 2]\<rparr>
        ''image/webp'' (Fin (1 / 4))]"
proof -
  have s: "supported_type (type small_webp)"
    by (simp add: supported_type_def small_webp_def)
  have b1: "readAsDataURL sample_browser small_webp =
              Some (Base64 ''image/webp'' [0, 2, 0, 2, 9, 9, 9, 9, 9, 9])"
    by (simp add: sample_browser_def small_webp_def)
  have b2: "decode sample_browser (Base64 ''image/webp'' [0, 2, 0, 2, 9, 9, 9, 9, 9, 9]) =
              Some (2, 2)"
    by (simp add: sample_browser_def)
  from C6_reencode_policy [OF s b1 b2 resize_2_2] show ?thesis
    by (simp add: small_webp_def)
qed

text \<open>
  A compression that never settles: a strip 4000 pixels wide and 2 high gets a canvas of
  height 0, the encoder answers \<^verbatim>\<open>data:,\<close>, and the promise stays pending.
\<close>

lemma ratio_4000:
  "js_div (num 1920) (num 4000) = Fin (1080863910568919 / 2251799813685248)"
  using round64_eqI [of "- 2" "1920 / 4000" 8646911284551352]
  by (simp add: num_def power_int_minus)

lemma ratio_2:
  "js_div (num 1920) (num 2) = Fin 960"
  using round64_eqI [of 9 "1920 / 2" 8444249301319680]
  by (simp add: num_def power_int_minus)

lemma width_4000:
  "js_mul (num 4000) (Fin (1080863910568919 / 2251799813685248)) = Fin 1920"
  using round64_eqI [of 10 "4000 * (1080863910568919 / 2251799813685248)" 8444249301319680]
  by (simp add: num_def power_int_minus)

lemma height_2:
  "js_mul (num 2) (Fin (1080863910568919 / 2251799813685248)) =
     Fin (1080863910568919 / 1125899906842624)"
  using round64_eqI [of "- 1" "2 * (1080863910568919 / 2251799813685248)" 8646911284551352]
  by (simp add: num_def power_int_minus)

lemma truncated_height_0: "to_unsigned_long (Fin (1080863910568919 / 1125899906842624)) = 0"
proof -
  have "\<lfloor>1080863910568919 / 1125899906842624 :: rat\<rfloor> = 0" by (simp add: floor_eq_iff)
  then show ?thesis by simp
qed

lemma resize_4000_2: "resize_logic 4000 2 = (1920, 0)"
proof -
  have "Math_min (js_div (num 1920) (num 4000)) (js_div (num 1920) (num 2)) =
          Fin (1080863910568919 / 2251799813685248)"
    by (simp add: ratio_4000 ratio_2)
  moreover have "to_unsigned_long (Fin 1920) = 1920" by simp
  ultimately show ?thesis
    by (simp add: resize_logic_def MAX_DIMENSION_def Let_def width_4000 height_2
        truncated_height_0 del: to_unsigned_long.simps)
qed

lemma strip_png_run: "snd (compressImage sample_browser strip_png) = Pending"
proof -
  have r: "readAsDataURL sample_browser strip_png =
             Some (Base64 ''image/png'' [15, 160, 0, 2, 0, 0])"
    by (simp add: sample_browser_def strip_png_def)
  have d: "decode sample_browser (Base64 ''image/png'' [15, 160, 0, 2, 0, 0]) = Some (4000, 2)"
    by (simp add: sample_browser_def)
  have t: "quality_format_logic (type strip_png) = Some (''image/webp'', Fin (1 / 4))"
    by (simp add: quality_format_logic_def strip_png_def)
  have e: "toDataURL sample_browser \<lparr>width = 1920, height = 0, content = c\<rparr> m q = NoData"
    for c m q
    by (simp add: sample_browser_def)
  show ?thesis
    by (simp add: compressImage_def r d resize_4000_2 t e Let_def)
qed

section \<open>Properties of the batch orchestrator\<close>

lemma invocations_append: "invocations (xs @ ys) = invocations xs @ invocations ys"
  by (induction xs rule: invocations.induct) simp_all

lemma entries_append: "entries (xs @ ys) = entries xs @ entries ys"
  by (induction xs rule: entries.induct) simp_all

lemma progress_values_append:
  "progress_values (xs @ ys) = progress_values xs @ progress_values ys"
  by (induction xs rule: progress_values.induct) simp_all

lemma notices_append: "notices (xs @ ys) = notices xs @ notices ys"
  by (induction xs rule: notices.induct) simp_all

lemma try_block_Waiting: "(try_block env f = Waiting) = (\<not> settles env f)"
  by (simp add: try_block_def settles_def split: promise.splits sum.splits)

lemma expected_try_block:
  "expected env f =
     (case try_block env f of
        Returned c \<Rightarrow> [Card c]
      | Thrown message \<Rightarrow> [Failed (name f) message]
      | Waiting \<Rightarrow> [])"
  by (simp add: expected_def try_block_def split: promise.splits sum.splits)

lemma loop_invocations_prefix:
  "\<exists>m. invocations (fst (process_loop env n fs c)) = take m fs"
proof (induction fs arbitrary: c)
  case Nil
  then show ?case by simp
next
  case (Cons f fs)
  show ?case
  proof (cases "try_block env f")
    case Waiting
    have "invocations (fst (process_loop env n (f # fs) c)) = take 1 (f # fs)"
      using Waiting by simp
    then show ?thesis by blast
  next
    case (Returned r)
    from Cons.IH [of "c + 1"] obtain m where
      "invocations (fst (process_loop env n fs (c + 1))) = take m fs" by blast
    then have "invocations (fst (process_loop env n (f # fs) c)) = take (Suc m) (f # fs)"
      using Returned by (simp add: Let_def)
    then show ?thesis by blast
  next
    case (Thrown msg)
    from Cons.IH [of "c + 1"] obtain m where
      "invocations (fst (process_loop env n fs (c + 1))) = take m fs" by blast
    then have "invocations (fst (process_loop env n (f # fs) c)) = take (Suc m) (f # fs)"
      using Thrown by (simp add: Let_def)
    then show ?thesis by blast
  qed
qed

lemma expected_settled:
  assumes "list_all (settles env) fs"
  shows "length (concat (map (expected env) fs)) = length fs"
  using assms
proof (induction fs)
  case Nil
  then show ?case by simp
next
  case (Cons f fs)
  from Cons.prems have "try_block env f \<noteq> Waiting"
    by (simp add: try_block_Waiting)
  then have "length (expected env f) = 1"
    by (cases "try_block env f") (simp_all add: expected_try_block)
  with Cons show ?case by simp
qed

lemma loop_settled:
  assumes "list_all (settles env) fs"
  shows "snd (process_loop env n fs c) = Some (c + length fs) \<and>
         invocations (fst (process_loop env n fs c)) = fs \<and>
         entries (fst (process_loop env n fs c)) = concat (map (expected env) fs)"
  using assms
proof (induction fs arbitrary: c)
  case Nil
  then show ?case by simp
next
  case (Cons f fs)
  from Cons.prems have sf: "settles env f" and fs: "list_all (settles env) fs"
    by simp_all
  from sf have f: "try_block env f \<noteq> Waiting"
    by (simp add: try_block_Waiting)
  note IH = Cons.IH [OF fs, of "c + 1"]
  show ?case
  proof (cases "try_block env f")
    case Waiting
    with f show ?thesis by simp
  next
    case (Returned r)
    with IH show ?thesis
      by (simp add: Let_def expected_try_block)
  next
    case (Thrown msg)
    with IH show ?thesis
      by (simp add: Let_def expected_try_block)
  qed
qed

lemma loop_progress_upto:
  "progress_values (fst (process_loop env n fs c)) =
     map (\<lambda>k. progress k n) [Suc c ..< Suc (c + length (takeWhile (settles env) fs))]"
proof (induction fs arbitrary: c)
  case Nil
  then show ?case by simp
next
  case (Cons f fs)
  show ?case
  proof (cases "settles env f")
    case False
    then have "try_block env f = Waiting" by (simp add: try_block_Waiting)
    with False show ?thesis by simp
  next
    case True
    then have f: "try_block env f \<noteq> Waiting" by (simp add: try_block_Waiting)
    have step: "progress_values (fst (process_loop env n (f # fs) c)) =
                  progress (Suc c) n # progress_values (fst (process_loop env n fs (Suc c)))"
      using f by (cases "try_block env f") (simp_all add: Let_def)
    have e1: "Suc (c + length (takeWhile (settles env) (f # fs))) =
                Suc (Suc c + length (takeWhile (settles env) fs))"
      using True by simp
    have e2: "[Suc c ..< Suc (Suc c + length (takeWhile (settles env) fs))] =
                Suc c # [Suc (Suc c) ..< Suc (Suc c + length (takeWhile (settles env) fs))]"
      by (rule upt_conv_Cons) simp
    show ?thesis
      by (simp only: e1 e2 step list.map Cons.IH [of "Suc c"])
  qed
qed

lemma loop_entries_upto:
  "entries (fst (process_loop env n fs c)) =
     concat (map (expected env) (takeWhile (settles env) fs))"
proof (induction fs arbitrary: c)
  case Nil
  then show ?case by simp
next
  case (Cons f fs)
  show ?case
  proof (cases "try_block env f")
    case Waiting
    then have "\<not> settles env f" by (simp add: try_block_Waiting)
    with Waiting show ?thesis by simp
  next
    case (Returned r)
    then have "settles env f" using try_block_Waiting [of env f] by simp
    with Returned Cons.IH [of "c + 1"] show ?thesis
      by (simp add: Let_def expected_try_block)
  next
    case (Thrown msg)
    then have "settles env f" using try_block_Waiting [of env f] by simp
    with Thrown Cons.IH [of "c + 1"] show ?thesis
      by (simp add: Let_def expected_try_block)
  qed
qed

lemma loop_ends: "(snd (process_loop env n fs c) \<noteq> None) = list_all (settles env) fs"
proof (induction fs arbitrary: c)
  case Nil
  then show ?case by simp
next
  case (Cons f fs)
  show ?case
  proof (cases "try_block env f")
    case Waiting
    then have "\<not> settles env f" by (simp add: try_block_Waiting)
    with Waiting show ?thesis by simp
  next
    case (Returned r)
    then have "settles env f" using try_block_Waiting [of env f] by simp
    with Returned Cons.IH [of "c + 1"] show ?thesis
      by (simp add: Let_def)
  next
    case (Thrown msg)
    then have "settles env f" using try_block_Waiting [of env f] by simp
    with Thrown Cons.IH [of "c + 1"] show ?thesis
      by (simp add: Let_def)
  qed
qed

lemma supported_not_unsupported_error:
  assumes "supported f"
  shows "snd (compressImage env f) \<noteq> Rejected ''Unsupported file format.''"
  using assms
  by (auto simp: compressImage_def supported_def quality_format_logic_def Let_def
      split: option.splits prod.splits data_url.splits)

lemma processFiles_none:
  assumes "filter supported files = []"
  shows "processFiles env files =
     \<lparr>events = [ClearInnerHTML resultsContainer, ClearInnerHTML mobileResultsCarousel,
                 AddClass resultsSection ''hidden''] @
                (if files = [] then []
                 else [ShowToast ''None of the selected files are supported (JPG, PNG, WebP).''
                         ''error'']),
      finished = True\<rparr>"
  using assms by (simp add: processFiles_def Let_def)

lemma processFiles_some:
  assumes "filter supported files \<noteq> []"
  shows "processFiles env files =
     (let looped = process_loop env (length (filter supported files)) (filter supported files) 0;
          before = [ClearInnerHTML resultsContainer, ClearInnerHTML mobileResultsCarousel,
                    AddClass resultsSection ''hidden'', RemoveClass resultsSection ''hidden'',
                    RemoveClass progressIndicator ''hidden'',
                    SetFileCount (length (filter supported files))]
      in case snd looped of
           None \<Rightarrow> \<lparr>events = before @ fst looped, finished = False\<rparr>
         | Some completedCount \<Rightarrow>
             \<lparr>events = before @ fst looped @
                [AddClass progressIndicator ''hidden'',
                 ShowToast (''Batch compression complete! '' @ decimal completedCount @
                            '' images ready for download.'') ''success'',
                 ScrollIntoView resultsSection],
              finished = True\<rparr>)"
  using assms by (simp add: processFiles_def Let_def split: option.splits)

lemma processFiles_invocations:
  "invocations (events (processFiles env files)) =
     invocations (fst (process_loop env (length (filter supported files))
                        (filter supported files) 0))"
proof (cases "filter supported files = []")
  case True
  then show ?thesis by (simp add: processFiles_none)
next
  case False
  then show ?thesis
    by (simp add: processFiles_some Let_def invocations_append split: option.splits)
qed

lemma processFiles_finished:
  "finished (processFiles env files) = list_all (settles env) (filter supported files)"
proof (cases "filter supported files = []")
  case True
  then show ?thesis by (simp add: processFiles_none)
next
  case False
  with loop_ends [of env "length (filter supported files)" "filter supported files" 0]
  show ?thesis
    by (auto simp: processFiles_some Let_def split: option.splits)
qed

lemma processFiles_upto:
  "progress_values (events (processFiles env files)) =
     map (\<lambda>k. progress k (length (filter supported files)))
       [Suc 0 ..< Suc (length (takeWhile (settles env) (filter supported files)))]"
  "entries (events (processFiles env files)) =
     concat (map (expected env) (takeWhile (settles env) (filter supported files)))"
proof -
  note p = loop_progress_upto [of env "length (filter supported files)"
      "filter supported files" 0]
  note e = loop_entries_upto [of env "length (filter supported files)"
      "filter supported files" 0]
  show "progress_values (events (processFiles env files)) =
     map (\<lambda>k. progress k (length (filter supported files)))
       [Suc 0 ..< Suc (length (takeWhile (settles env) (filter supported files)))]"
  proof (cases "filter supported files = []")
    case True
    then show ?thesis by (simp add: processFiles_none)
  next
    case False
    with p show ?thesis
      by (simp add: processFiles_some Let_def progress_values_append split: option.splits)
  qed
  show "entries (events (processFiles env files)) =
     concat (map (expected env) (takeWhile (settles env) (filter supported files)))"
  proof (cases "filter supported files = []")
    case True
    then show ?thesis by (simp add: processFiles_none)
  next
    case False
    with e show ?thesis
      by (simp add: processFiles_some Let_def entries_append split: option.splits)
  qed
qed

lemma processFiles_settled:
  assumes "list_all (settles env) (filter supported files)"
  shows "finished (processFiles env files) \<and>
         invocations (events (processFiles env files)) = filter supported files \<and>
         entries (events (processFiles env files)) =
           concat (map (expected env) (filter supported files)) \<and>
         length (entries (events (processFiles env files))) = length (filter supported files)"
proof (cases "filter supported files = []")
  case True
  then show ?thesis by (simp add: processFiles_none)
next
  case False
  from loop_settled [OF assms, of "length (filter supported files)" 0] False
  show ?thesis
    by (simp add: processFiles_some Let_def invocations_append entries_append
        expected_settled [OF assms])
qed

lemma supported_samples:
  "supported tiny_jpeg" "supported small_webp" "supported broken_webp" "supported photo_png"
  "supported strip_png" "\<not> supported report_pdf" "\<not> supported anim_gif"
  by (simp_all add: supported_def tiny_jpeg_def small_webp_def broken_webp_def photo_png_def
      strip_png_def report_pdf_def anim_gif_def)

lemma settles_samples:
  "settles sample_browser tiny_jpeg" "settles sample_browser broken_webp"
  "settles sample_browser small_webp"
  by (simp_all add: settles_def tiny_jpeg_run broken_webp_run small_webp_run)

lemma batch_invocations:
  "invocations (events (processFiles sample_browser
      [tiny_jpeg, report_pdf, broken_webp, small_webp])) = [tiny_jpeg, broken_webp, small_webp]"
  by (simp add: processFiles_settled supported_samples settles_samples)

text \<open>
  C7, as stated, fails on the empty input: \<open>processFiles\<close> does not do nothing there, it
  empties both result containers and hides the results section, as on every call.
\<close>

theorem C7_counterexample:
  "events (processFiles sample_browser []) =
     [ClearInnerHTML resultsContainer, ClearInnerHTML mobileResultsCarousel,
      AddClass resultsSection ''hidden''] \<and>
   events (processFiles sample_browser []) \<noteq> []"
  by (simp add: processFiles_def)

text \<open>
  C7. Every call of \<open>processFiles\<close> begins by clearing the previous results: it empties
  both result containers and hides the results section. The files handed to the pipeline
  are an initial part of the files of the three supported types, in order, and all of them
  when every compression settles. When no file is of a supported type nothing is handed
  to the pipeline, and after the clearing the only action is one error notice if files
  were given and none if the input was empty.
\<close>

theorem C7_filtering:
  "take 3 (events (processFiles env files)) =
     [ClearInnerHTML resultsContainer, ClearInnerHTML mobileResultsCarousel,
      AddClass resultsSection ''hidden''] \<and>
   (\<exists>m. invocations (events (processFiles env files)) = take m (filter supported files)) \<and>
   (list_all (settles env) (filter supported files) \<longrightarrow>
      invocations (events (processFiles env files)) = filter supported files) \<and>
   (filter supported files = [] \<longrightarrow>
      invocations (events (processFiles env files)) = [] \<and>
      notices (events (processFiles env files)) =
        (if files = [] then []
         else [''None of the selected files are supported (JPG, PNG, WebP).'']) \<and>
      events (processFiles env files) =
        [ClearInnerHTML resultsContainer, ClearInnerHTML mobileResultsCarousel,
         AddClass resultsSection ''hidden''] @
        (if files = [] then []
         else [ShowToast ''None of the selected files are supported (JPG, PNG, WebP).''
                 ''error'']) \<and>
      finished (processFiles env files))"
proof (intro conjI impI)
  show "take 3 (events (processFiles env files)) =
     [ClearInnerHTML resultsContainer, ClearInnerHTML mobileResultsCarousel,
      AddClass resultsSection ''hidden'']"
  proof (cases "filter supported files = []")
    case True
    then show ?thesis by (simp add: processFiles_none)
  next
    case False
    then show ?thesis by (simp add: processFiles_some Let_def split: option.splits)
  qed
next
  show "\<exists>m. invocations (events (processFiles env files)) = take m (filter supported files)"
    by (simp only: processFiles_invocations loop_invocations_prefix)
next
  assume "list_all (settles env) (filter supported files)"
  then show "invocations (events (processFiles env files)) = filter supported files"
    by (simp add: processFiles_settled)
next
  assume none: "filter supported files = []"
  show "invocations (events (processFiles env files)) = []"
    by (simp add: processFiles_none [OF none])
  show n: "notices (events (processFiles env files)) =
        (if files = [] then []
         else [''None of the selected files are supported (JPG, PNG, WebP).''])"
    by (simp add: processFiles_none [OF none])
  show "events (processFiles env files) =
        [ClearInnerHTML resultsContainer, ClearInnerHTML mobileResultsCarousel,
         AddClass resultsSection ''hidden''] @
        (if files = [] then []
         else [ShowToast ''None of the selected files are supported (JPG, PNG, WebP).''
                 ''error''])"
    by (simp add: processFiles_none [OF none])
  show "finished (processFiles env files)"
    by (simp add: processFiles_none [OF none])
qed

theorem C7_filtering_witness:
  "invocations (events (processFiles sample_browser [report_pdf, anim_gif])) = [] \<and>
   notices (events (processFiles sample_browser [report_pdf, anim_gif])) =
     [''None of the selected files are supported (JPG, PNG, WebP).''] \<and>
   notices (events (processFiles sample_browser [])) = [] \<and>
   events (processFiles sample_browser []) =
     [ClearInnerHTML resultsContainer, ClearInnerHTML mobileResultsCarousel,
      AddClass resultsSection ''hidden''] \<and>
   take 3 (events (processFiles sample_browser
     [tiny_jpeg, report_pdf, broken_webp, small_webp])) =
     [ClearInnerHTML resultsContainer, ClearInnerHTML mobileResultsCarousel,
      AddClass resultsSection ''hidden''] \<and>
   invocations (events (processFiles sample_browser
     [tiny_jpeg, report_pdf, broken_webp, small_webp])) = [tiny_jpeg, broken_webp, small_webp]"
proof -
  have s: "list_all (settles sample_browser)
             (filter supported [tiny_jpeg, report_pdf, broken_webp, small_webp])"
    by (simp add: supported_samples settles_samples)
  note b = C7_filtering [of sample_browser "[tiny_jpeg, report_pdf, broken_webp, small_webp]"]
  from b [THEN conjunct2, THEN conjunct2, THEN conjunct1] s
  have i: "invocations (events (processFiles sample_browser
     [tiny_jpeg, report_pdf, broken_webp, small_webp])) = [tiny_jpeg, broken_webp, small_webp]"
    by (simp add: supported_samples)
  from C7_filtering [of sample_browser "[report_pdf, anim_gif]"]
    C7_filtering [of sample_browser "[]"] b [THEN conjunct1] i
  show ?thesis
    by (simp add: supported_samples)
qed

text \<open>
  C10. Every file that \<open>processFiles\<close> hands to the pipeline has one of the three
  supported types, so for it the format logic finds a mime type and \<open>compressImage\<close>
  does not reject with \<^verbatim>\<open>Unsupported file format.\<close>
\<close>

theorem C10_unsupported_branch_unreachable:
  "\<forall>f \<in> set (invocations (events (processFiles env files))).
     supported_type (type f) \<and> quality_format_logic (type f) \<noteq> None \<and>
     snd (compressImage env f) \<noteq> Rejected ''Unsupported file format.''"
proof
  fix f
  assume f: "f \<in> set (invocations (events (processFiles env files)))"
  obtain m where "invocations (events (processFiles env files)) = take m (filter supported files)"
    using loop_invocations_prefix [of env "length (filter supported files)"
        "filter supported files" 0]
    by (auto simp: processFiles_invocations)
  with f have "f \<in> set (take m (filter supported files))" by simp
  then have "f \<in> set (filter supported files)" by (rule in_set_takeD)
  then have s: "supported f" by simp
  then have "supported_type (type f)" by (simp add: supported_def supported_type_def)
  moreover from s have "quality_format_logic (type f) \<noteq> None"
    by (auto simp: supported_def quality_format_logic_def)
  moreover note supported_not_unsupported_error [OF s, of env]
  ultimately show "supported_type (type f) \<and> quality_format_logic (type f) \<noteq> None \<and>
     snd (compressImage env f) \<noteq> Rejected ''Unsupported file format.''"
    by simp
qed

theorem C10_unsupported_branch_unreachable_witness:
  "tiny_jpeg \<in> set (invocations (events (processFiles sample_browser
      [tiny_jpeg, report_pdf, broken_webp, small_webp]))) \<and>
   supported_type (type tiny_jpeg) \<and>
   snd (compressImage sample_browser tiny_jpeg) \<noteq> Rejected ''Unsupported file format.''"
proof -
  have m: "tiny_jpeg \<in> set (invocations (events (processFiles sample_browser
      [tiny_jpeg, report_pdf, broken_webp, small_webp])))"
    by (simp add: batch_invocations)
  from C10_unsupported_branch_unreachable [of sample_browser
      "[tiny_jpeg, report_pdf, broken_webp, small_webp]"] m
  show ?thesis by blast
qed

text \<open>
  C5. A batch of three accepted files whose second is a PNG 4000 pixels wide and 2 high
  does not run to its end. The first file fails to decode and its failure is logged; the
  second is scaled to a canvas of height 0, whose data URL has no base64 part, so the
  decoding of that part throws inside the \<^verbatim>\<open>onload\<close> handler and the promise of
  \<open>compressImage\<close> is never settled. The loop waits on it for good: the second file gets
  neither a card nor a failure, and the third is never handed to the pipeline.
\<close>

theorem C5_batch_stalls:
  "filter supported [broken_webp, strip_png, small_webp] = [broken_webp, strip_png, small_webp] \<and>
   snd (compressImage sample_browser broken_webp) = Rejected ''Failed to load image.'' \<and>
   snd (compressImage sample_browser strip_png) = Pending \<and>
   finished (processFiles sample_browser [broken_webp, strip_png, small_webp]) = False \<and>
   invocations (events (processFiles sample_browser [broken_webp, strip_png, small_webp])) =
     [broken_webp, strip_png] \<and>
   entries (events (processFiles sample_browser [broken_webp, strip_png, small_webp])) =
     [Failed ''broken.webp'' ''Failed to load image.'']"
proof -
  have n: "name broken_webp = ''broken.webp''"
    by (simp add: broken_webp_def)
  have t: "try_block sample_browser broken_webp = Thrown ''Failed to load image.''"
    "try_block sample_browser strip_png = Waiting"
    by (simp_all add: try_block_def broken_webp_run strip_png_run)
  show ?thesis
    by (simp add: processFiles_some supported_samples broken_webp_run strip_png_run t Let_def n)
qed

section \<open>Progress of a batch\<close>

lemma progress_value:
  assumes "0 < n" "k \<le> n"
  shows "progress k n = Fin (nearest (nearest (of_nat k / of_nat n) * 100))"
    and "0 \<le> nearest (of_nat k / of_nat n)" and "nearest (of_nat k / of_nat n) \<le> 1"
proof -
  let ?q = "(of_nat k / of_nat n) :: rat"
  from assms have q: "0 \<le> ?q" "?q \<le> 1" by simp_all
  note a = round64_bounded [OF q nearest_1 pow2_1024_gt(2)]
  from a show "0 \<le> nearest ?q" "nearest ?q \<le> 1" by simp_all
  then have p: "0 \<le> nearest ?q * 100" "nearest ?q * 100 \<le> 100" by simp_all
  note b = round64_bounded [OF p nearest_100 pow2_1024_gt(1)]
  from assms(1) a(1) b(1) show "progress k n = Fin (nearest (nearest ?q * 100))"
    by (simp add: progress_def num_def)
qed

lemma progress_mono:
  assumes "0 < n" "j \<le> k" "k \<le> n"
  shows "js_le (progress j n) (progress k n)"
proof -
  from assms have jn: "j \<le> n" by simp
  have "(of_nat j / of_nat n :: rat) \<le> of_nat k / of_nat n"
    using assms by (simp add: divide_right_mono)
  then have "nearest (of_nat j / of_nat n) \<le> nearest (of_nat k / of_nat n)"
    by (intro nearest_mono0) simp_all
  then have "nearest (of_nat j / of_nat n) * 100 \<le> nearest (of_nat k / of_nat n) * 100"
    by simp
  moreover have "0 \<le> nearest (of_nat j / of_nat n) * 100"
    using progress_value(2) [OF assms(1) jn] by simp
  ultimately have "nearest (nearest (of_nat j / of_nat n) * 100)
      \<le> nearest (nearest (of_nat k / of_nat n) * 100)"
    by (intro nearest_mono0)
  then show ?thesis
    by (simp add: progress_value(1) [OF assms(1) jn] progress_value(1) [OF assms(1,3)])
qed

lemma progress_full: "0 < n \<Longrightarrow> progress n n = Fin 100"
  by (simp add: progress_value(1) nearest_1 nearest_100)

lemma small_error: "(200::rat) * 2 powi (- 53) + 101 * 2 powi (- 1075) \<le> 2 powi (- 45)"
proof -
  have "(2::rat) powi (- 1075) \<le> 2 powi (- 60)" by (rule pow2_mono) simp
  then have "(200::rat) * 2 powi (- 53) + 101 * 2 powi (- 1075)
      \<le> 200 * 2 powi (- 53) + 101 * 2 powi (- 60)"
    by simp
  also have "\<dots> \<le> 2 powi (- 45)" by (simp add: power_int_minus)
  finally show ?thesis .
qed

lemma abs_chain:
  fixes v p q q1 :: rat
  assumes "\<bar>v - p\<bar> \<le> a" "p = q1 * 100" "\<bar>q1 - q\<bar> \<le> b"
  shows "\<bar>v - 100 * q\<bar> \<le> a + 100 * b"
  using assms by (auto simp: abs_le_iff)

lemma progress_close:
  assumes "0 < n" "k \<le> n"
  shows "\<exists>v. progress k n = Fin v \<and> \<bar>v - 100 * of_nat k / of_nat n\<bar> \<le> 2 powi (- 45)"
proof -
  define u :: rat where "u = 2 powi (- 53)"
  define h :: rat where "h = 2 powi (- 1075)"
  define q :: rat where "q = of_nat k / of_nat n"
  define q1 where "q1 = nearest q"
  define p where "p = q1 * 100"
  define v where "v = nearest p"
  have h: "0 \<le> h" and u: "0 \<le> u" by (simp_all add: h_def u_def)
  from assms have q: "0 \<le> q" "q \<le> 1" by (simp_all add: q_def)
  note pv = progress_value [OF assms, folded q_def, folded q1_def, folded p_def, folded v_def]
  have "\<bar>q1 - q\<bar> \<le> q * u + h"
    unfolding q1_def u_def h_def by (rule nearest_rel_err [OF q(1)])
  moreover have "q * u \<le> 1 * u" using q(2) u by (intro mult_right_mono)
  ultimately have e1: "\<bar>q1 - q\<bar> \<le> u + h" by simp
  have p: "0 \<le> p" "p \<le> 100" using pv(2,3) by (simp_all add: p_def)
  have "\<bar>v - p\<bar> \<le> p * u + h"
    unfolding v_def u_def h_def by (rule nearest_rel_err [OF p(1)])
  moreover have "p * u \<le> 100 * u" using p(2) u by (intro mult_right_mono)
  ultimately have e2: "\<bar>v - p\<bar> \<le> 100 * u + h" by simp
  have "\<bar>v - 100 * q\<bar> \<le> (100 * u + h) + 100 * (u + h)"
    using e2 p_def e1 by (rule abs_chain)
  also have "\<dots> = 200 * u + 101 * h" by simp
  also have "\<dots> \<le> 2 powi (- 45)" unfolding u_def h_def by (rule small_error)
  finally have "\<bar>v - 100 * of_nat k / of_nat n\<bar> \<le> 2 powi (- 45)" by (simp add: q_def)
  with pv(1) show ?thesis by blast
qed

lemma progress_sorted_upto:
  assumes "m \<le> n"
  shows "sorted_wrt js_le (map (\<lambda>k. progress k n) [Suc 0 ..< Suc m])"
proof (cases "n = 0")
  case True
  with assms show ?thesis by simp
next
  case False
  then have n: "0 < n" by simp
  show ?thesis
    unfolding sorted_wrt_iff_nth_less
  proof (intro allI impI)
    fix i j
    assume "i < j" "j < length (map (\<lambda>k. progress k n) [Suc 0 ..< Suc m])"
    then have ij: "i < j" "j < m" by (simp_all del: upt_Suc)
    with assms have "js_le (progress (Suc i) n) (progress (Suc j) n)"
      by (intro progress_mono [OF n]) simp_all
    with ij show "js_le (map (\<lambda>k. progress k n) [Suc 0 ..< Suc m] ! i)
                        (map (\<lambda>k. progress k n) [Suc 0 ..< Suc m] ! j)"
      by (simp del: upt_Suc)
  qed
qed

text \<open>
  C8. With \<open>n\<close> accepted files, of which the first \<open>m\<close> have their compression settled
  (resolved or rejected), the widths given to the progress bar are, in order, the doubles
  \<open>(k / n) * 100\<close> for \<open>k\<close> from 1 to \<open>m\<close>, one after each of these files. Each is the
  percentage of \<open>k / n\<close> up to rounding, the sequence never decreases, and when the run
  ends its last value is exactly 100.
\<close>

theorem C8_progress:
  assumes "n = length (filter supported files)"
    and "m = length (takeWhile (settles env) (filter supported files))"
  shows "progress_values (events (processFiles env files)) =
           map (\<lambda>k. progress k n) [Suc 0 ..< Suc m] \<and>
         sorted_wrt js_le (progress_values (events (processFiles env files))) \<and>
         (finished (processFiles env files) \<and> 0 < n \<longrightarrow>
            m = n \<and> last (progress_values (events (processFiles env files))) = Fin 100) \<and>
         (\<forall>k \<in> {1 .. n}. \<exists>v. progress k n = Fin v \<and>
                              \<bar>v - 100 * of_nat k / of_nat n\<bar> \<le> 2 powi (- 45))"
proof -
  have mn: "m \<le> n"
    unfolding assms by (rule length_takeWhile_le)
  have pv: "progress_values (events (processFiles env files)) =
              map (\<lambda>k. progress k n) [Suc 0 ..< Suc m]"
    by (simp only: assms processFiles_upto(1))
  have full: "m = n \<and> last (map (\<lambda>k. progress k n) [Suc 0 ..< Suc m]) = Fin 100"
    if "finished (processFiles env files) \<and> 0 < n"
  proof -
    from that have "list_all (settles env) (filter supported files)"
      by (simp add: processFiles_finished)
    then have "takeWhile (settles env) (filter supported files) = filter supported files"
      by (simp add: list_all_iff)
    then have "m = n" by (simp only: assms)
    with that show ?thesis by (simp add: progress_full)
  qed
  have "\<exists>v. progress k n = Fin v \<and> \<bar>v - 100 * of_nat k / of_nat n\<bar> \<le> 2 powi (- 45)"
    if "k \<in> {1 .. n}" for k
    using that by (intro progress_close) simp_all
  with full show ?thesis
    by (simp only: pv progress_sorted_upto [OF mn]) blast
qed

theorem C8_progress_witness:
  "progress_values (events (processFiles sample_browser
      [tiny_jpeg, report_pdf, broken_webp, small_webp])) =
     [progress 1 3, progress 2 3, progress 3 3] \<and>
   sorted_wrt js_le [progress 1 3, progress 2 3, progress 3 3] \<and>
   finished (processFiles sample_browser [tiny_jpeg, report_pdf, broken_webp, small_webp]) \<and>
   progress 3 3 = Fin 100 \<and>
   (\<exists>v. progress 2 3 = Fin v \<and> \<bar>v - 200 / 3\<bar> \<le> 2 powi (- 45))"
proof -
  have n: "3 = length (filter supported [tiny_jpeg, report_pdf, broken_webp, small_webp])"
    by (simp add: supported_samples)
  have m: "3 = length (takeWhile (settles sample_browser)
                 (filter supported [tiny_jpeg, report_pdf, broken_webp, small_webp]))"
    by (simp add: supported_samples settles_samples)
  have f: "finished (processFiles sample_browser
             [tiny_jpeg, report_pdf, broken_webp, small_webp])"
    by (simp add: processFiles_finished supported_samples settles_samples)
  have l: "map (\<lambda>k. progress k 3) [Suc 0 ..< Suc 3] = [progress 1 3, progress 2 3, progress 3 3]"
    by (simp add: upt_rec eval_nat_numeral)
  note w = C8_progress [OF n m]
  note a = w [THEN conjunct1]
  note b = w [THEN conjunct2, THEN conjunct1]
  have c: "last (progress_values (events (processFiles sample_browser
      [tiny_jpeg, report_pdf, broken_webp, small_webp]))) = Fin 100"
    using w [THEN conjunct2, THEN conjunct2, THEN conjunct1] f by simp
  have "2 \<in> {1 .. (3::nat)}" by simp
  with w [THEN conjunct2, THEN conjunct2, THEN conjunct2]
  have "\<exists>v. progress 2 3 = Fin v \<and> \<bar>v - 100 * of_nat 2 / of_nat 3\<bar> \<le> 2 powi (- 45)"
    by (rule bspec)
  then have d: "\<exists>v. progress 2 3 = Fin v \<and> \<bar>v - 200 / 3\<bar> \<le> 2 powi (- 45)"
    by simp
  from b c d f show ?thesis
    unfolding a l by simp
qed

section \<open>Properties of the result card\<close>

lemma split_on_nonempty [simp]: "split_on c xs \<noteq> []"
  by (induction xs) (simp_all add: Let_def)













lemma plain_iff:
  "(set s \<inter> {CHR ''<'', CHR ''&'', CHR 0x22, CHR 0x00, CHR 0x0D} = {}) = plain s"
  by (auto simp: plain_def list_all_iff)

lemma card_markup_slots:
  "shownName (card_markup f u s b) = name f"
  "finalDataUrl (card_markup f u s b) = u"
  "downloadUrl (card_markup f u s b) = b"
  by (simp_all add: card_markup_def Let_def)

lemma card_markup_reduced:
  assumes "s < size_of f"
  shows "fileName (card_markup f u s b) =
           replace_extension (name f) @ ''_compressed.'' @
           (if includes_str (type b) ''webp'' then ''webp'' else pop (split_on CHR ''.'' (name f)))"
    and "reductionText (card_markup f u s b) =
           ''-'' @ toFixed1 (js_sub (Fin 100) (js_mul (js_div (num s) (num (size_of f))) (Fin 100)))
           @ ''% Reduction''"
  using assms by (simp_all add: card_markup_def Let_def)

lemma card_markup_original:
  assumes "size_of f \<le> s"
  shows "fileName (card_markup f u s b) = name f"
    and "reductionText (card_markup f u s b) = ''0% Reduction (Used Original)''"
  using assms by (simp_all add: card_markup_def Let_def)


lemma createResultCard_plain:
  assumes "plain_markup (card_markup f u s b)"
  shows "createResultCard env f u s b =
           Inr \<lparr>classes = [''result-card'', ''glass-card'', ''p-6'', ''transition'',
                            ''duration-300'', ''hover:scale-[1.03]''],
                innerHTML = card_markup f u s b,
                downloadButton = \<lparr>data_url = ObjectURL b,
                                  data_filename = fileName (card_markup f u s b)\<rparr>\<rparr>"
  using assms by (simp add: createResultCard_def download_btn_def Let_def card_markup_slots)

















lemma tiny_jpeg_fields:
  "size_of tiny_jpeg = 4" "name tiny_jpeg = ''tiny.jpg''" "type tiny_jpeg = ''image/jpeg''"
  by (simp_all add: tiny_jpeg_def size_of_def)





lemma comment_png_fields:
  "size_of comment_png = 10" "name comment_png = ''a<!--b.png''"
  "type comment_png = ''image/png''"
  by (simp_all add: comment_png_def size_of_def)

lemma comment_png_card:
  "createResultCard sample_browser comment_png u s b = Inl ''downloadButton is null''"
proof -
  have n: "\<not> plain_markup (card_markup comment_png u s b)"
    by (simp add: plain_markup_def card_markup_slots comment_png_fields plain_def)
  show ?thesis
    by (simp add: createResultCard_def download_btn_def n sample_browser_def Let_def
        card_markup_slots comment_png_fields)
qed




section \<open>Runs of sample batches\<close>

text \<open>
  A batch whose compressions all settle, one of them by a rejection; and a batch whose first
  file is compressed but gets no card, the download button being lost to its name: the
  error thrown by \<open>createResultCard\<close> is caught like a rejection.
\<close>

lemma comment_png_run:
  "snd (compressImage sample_browser comment_png) =
     Resolved \<lparr>compressedDataUrl = Base64 ''image/webp'' [0, 0, 0, 0, 0, 0],
               compressedBlob = \<lparr>type = ''image/webp'', bytes = [0, 0, 0, 0, 0, 0]\<rparr>,
               compressedSize = 6\<rparr>"
  by (simp add: compressImage_def sample_browser_def comment_png_def resize_logic_def
      MAX_DIMENSION_def num_def quality_format_logic_def size_guarantee_fallback_def
      size_of_def as_blob_def Let_def replicate_6)

lemma small_webp_fields:
  "size_of small_webp = 10" "name small_webp = ''small.webp''" "type small_webp = ''image/webp''"
  by (simp_all add: small_webp_def size_of_def)

lemma small_webp_card:
  "createResultCard sample_browser small_webp (Base64 ''image/webp'' [0, 0, 0, 0, 0, 0]) 6
       \<lparr>type = ''image/webp'', bytes = [0, 0, 0, 0, 0, 0]\<rparr> =
     Inr \<lparr>classes = [''result-card'', ''glass-card'', ''p-6'', ''transition'',
                      ''duration-300'', ''hover:scale-[1.03]''],
          innerHTML = card_markup small_webp (Base64 ''image/webp'' [0, 0, 0, 0, 0, 0]) 6
                        \<lparr>type = ''image/webp'', bytes = [0, 0, 0, 0, 0, 0]\<rparr>,
          downloadButton =
            \<lparr>data_url = ObjectURL \<lparr>type = ''image/webp'', bytes = [0, 0, 0, 0, 0, 0]\<rparr>,
             data_filename = ''small_compressed.webp''\<rparr>\<rparr>"
proof -
  have less: "6 < size_of small_webp" by (simp add: small_webp_fields)
  have f: "fileName (card_markup small_webp (Base64 ''image/webp'' [0, 0, 0, 0, 0, 0]) 6
             \<lparr>type = ''image/webp'', bytes = [0, 0, 0, 0, 0, 0]\<rparr>) = ''small_compressed.webp''"
    by (simp add: card_markup_reduced(1) [OF less] small_webp_fields pop_def Let_def)
  have p: "plain_markup (card_markup small_webp (Base64 ''image/webp'' [0, 0, 0, 0, 0, 0]) 6
             \<lparr>type = ''image/webp'', bytes = [0, 0, 0, 0, 0, 0]\<rparr>)"
    by (simp add: plain_markup_def card_markup_slots f small_webp_fields plain_def)
  from createResultCard_plain [OF p, of sample_browser] f show ?thesis by simp
qed

lemma tiny_jpeg_card:
  "createResultCard sample_browser tiny_jpeg (Base64 ''image/jpeg'' [0, 2, 0, 2]) 4
       \<lparr>type = ''image/jpeg'', bytes = [0, 2, 0, 2]\<rparr> =
     Inr \<lparr>classes = [''result-card'', ''glass-card'', ''p-6'', ''transition'',
                      ''duration-300'', ''hover:scale-[1.03]''],
          innerHTML = card_markup tiny_jpeg (Base64 ''image/jpeg'' [0, 2, 0, 2]) 4
                        \<lparr>type = ''image/jpeg'', bytes = [0, 2, 0, 2]\<rparr>,
          downloadButton =
            \<lparr>data_url = ObjectURL \<lparr>type = ''image/jpeg'', bytes = [0, 2, 0, 2]\<rparr>,
             data_filename = ''tiny.jpg''\<rparr>\<rparr>"
proof -
  have le: "size_of tiny_jpeg \<le> 4" by (simp add: tiny_jpeg_fields)
  have f: "fileName (card_markup tiny_jpeg (Base64 ''image/jpeg'' [0, 2, 0, 2]) 4
             \<lparr>type = ''image/jpeg'', bytes = [0, 2, 0, 2]\<rparr>) = ''tiny.jpg''"
    by (simp add: card_markup_original(1) [OF le] tiny_jpeg_fields)
  have p: "plain_markup (card_markup tiny_jpeg (Base64 ''image/jpeg'' [0, 2, 0, 2]) 4
             \<lparr>type = ''image/jpeg'', bytes = [0, 2, 0, 2]\<rparr>)"
    by (simp add: plain_markup_def card_markup_slots f tiny_jpeg_fields plain_def)
  from createResultCard_plain [OF p, of sample_browser] f show ?thesis by simp
qed

lemma settled_batch:
  "finished (processFiles sample_browser [tiny_jpeg, report_pdf, broken_webp, small_webp]) \<and>
   entries (events (processFiles sample_browser
     [tiny_jpeg, report_pdf, broken_webp, small_webp])) =
     [Card \<lparr>classes = [''result-card'', ''glass-card'', ''p-6'', ''transition'',
                        ''duration-300'', ''hover:scale-[1.03]''],
            innerHTML = card_markup tiny_jpeg (Base64 ''image/jpeg'' [0, 2, 0, 2]) 4
                          \<lparr>type = ''image/jpeg'', bytes = [0, 2, 0, 2]\<rparr>,
            downloadButton =
              \<lparr>data_url = ObjectURL \<lparr>type = ''image/jpeg'', bytes = [0, 2, 0, 2]\<rparr>,
               data_filename = ''tiny.jpg''\<rparr>\<rparr>,
      Failed ''broken.webp'' ''Failed to load image.'',
      Card \<lparr>classes = [''result-card'', ''glass-card'', ''p-6'', ''transition'',
                        ''duration-300'', ''hover:scale-[1.03]''],
            innerHTML = card_markup small_webp (Base64 ''image/webp'' [0, 0, 0, 0, 0, 0]) 6
                          \<lparr>type = ''image/webp'', bytes = [0, 0, 0, 0, 0, 0]\<rparr>,
            downloadButton =
              \<lparr>data_url = ObjectURL \<lparr>type = ''image/webp'', bytes = [0, 0, 0, 0, 0, 0]\<rparr>,
               data_filename = ''small_compressed.webp''\<rparr>\<rparr>]"
proof -
  have s: "list_all (settles sample_browser)
             (filter supported [tiny_jpeg, report_pdf, broken_webp, small_webp])"
    by (simp add: supported_samples settles_samples)
  have n: "name broken_webp = ''broken.webp''"
    by (simp add: broken_webp_def)
  from processFiles_settled [OF s] show ?thesis
    by (simp add: supported_samples expected_def tiny_jpeg_run broken_webp_run
        small_webp_run n tiny_jpeg_card small_webp_card)
qed

lemma card_failure_batch:
  "finished (processFiles sample_browser [comment_png, small_webp]) \<and>
   entries (events (processFiles sample_browser [comment_png, small_webp])) =
     [Failed ''a<!--b.png'' ''downloadButton is null'',
      Card \<lparr>classes = [''result-card'', ''glass-card'', ''p-6'', ''transition'',
                        ''duration-300'', ''hover:scale-[1.03]''],
            innerHTML = card_markup small_webp (Base64 ''image/webp'' [0, 0, 0, 0, 0, 0]) 6
                          \<lparr>type = ''image/webp'', bytes = [0, 0, 0, 0, 0, 0]\<rparr>,
            downloadButton =
              \<lparr>data_url = ObjectURL \<lparr>type = ''image/webp'', bytes = [0, 0, 0, 0, 0, 0]\<rparr>,
               data_filename = ''small_compressed.webp''\<rparr>\<rparr>]"
proof -
  have c: "supported comment_png"
    by (simp add: supported_def comment_png_fields)
  have f: "filter supported [comment_png, small_webp] = [comment_png, small_webp]"
    by (simp add: supported_samples c)
  have w: "settles sample_browser comment_png"
    by (simp add: settles_def comment_png_run)
  have s: "list_all (settles sample_browser) (filter supported [comment_png, small_webp])"
    by (simp add: f settles_samples w)
  from processFiles_settled [OF s] show ?thesis
    by (simp add: supported_samples c expected_def comment_png_run small_webp_run
        comment_png_card small_webp_card comment_png_fields)
qed

end
